theory Spec2Isabelle
  imports Main "HOL-Library.Sublist"
begin

section \<open>Python values the subsystems work on\<close>

text \<open>
  The development embeds three parts of the scanner orchestration: the target expander and
  the liveness prober of \<^verbatim>\<open>core/aggregator.py\<close>, and the extraction engine of
  \<^verbatim>\<open>core/parse_engine.py\<close> with its soft-schema completion and emission of findings.
  Library functions are modelled as CPython 3.10 and later define them; the annotation
  \<^verbatim>\<open>Dict[str, str] | None\<close> in the source needs that version.

  Text is a \<^typ>\<open>string\<close>: a list of characters, each a code point below 256. Python
  integers are \<^typ>\<open>int\<close>. An exception is a value of \<open>py_error\<close>, and a function of
  the source that can raise returns \<open>py_error + 'a\<close>, with \<open>Inl\<close> for the exception.
  \<open>ValueError\<close> stands for the class and its subclasses (the address library's
  \<^verbatim>\<open>AddressValueError\<close> and \<^verbatim>\<open>NetmaskValueError\<close>), which
  \<^verbatim>\<open>except ValueError\<close> catches alike.
\<close>

datatype py_error =
  ValueError | IndexError | KeyError | TypeError | AttributeError | YAMLError | JMESPathError | XPathError

subsection \<open>String methods\<close>

text \<open>
  \<^verbatim>\<open>str.isspace\<close> on the code points below 256: TAB to CR, FS to US, the blank,
  NEL (0x85) and the no-break space (0xa0). \<^verbatim>\<open>str.strip()\<close> removes such
  characters from both ends.
\<close>

definition py_isspace :: "char \<Rightarrow> bool" where
  "py_isspace c = (of_char c \<in> {9, 10, 11, 12, 13, 28, 29, 30, 31, 32, 133, 160 :: nat})"

definition py_strip :: "string \<Rightarrow> string" where
  "py_strip s = rev (dropWhile py_isspace (rev (dropWhile py_isspace s)))"

text \<open>\<^verbatim>\<open>s.startswith(p)\<close> and \<^verbatim>\<open>p in s\<close> for a text \<open>p\<close>.\<close>

definition startswith :: "string \<Rightarrow> string \<Rightarrow> bool" where
  "startswith s p = (take (length p) s = p)"

fun contains :: "string \<Rightarrow> string \<Rightarrow> bool" where
  "contains [] p = (p = [])"
| "contains (c # cs) p = (startswith (c # cs) p \<or> contains cs p)"

text \<open>
  \<^verbatim>\<open>s.split(sep, 1)\<close> for a non-empty separator: the text before the first
  occurrence of \<open>sep\<close> and the text after it, or the text alone when \<open>sep\<close> does not
  occur. \<open>cut_first\<close> finds the occurrence, scanning from the left.
\<close>

fun cut_first :: "string \<Rightarrow> string \<Rightarrow> (string \<times> string) option" where
  "cut_first sep [] = None"
| "cut_first sep (c # cs) =
     (if startswith (c # cs) sep then Some ([], drop (length sep) (c # cs))
      else (case cut_first sep cs of
              None \<Rightarrow> None
            | Some (before, after) \<Rightarrow> Some (c # before, after)))"

definition split_once :: "string \<Rightarrow> string \<Rightarrow> string list" where
  "split_once sep s =
     (case cut_first sep s of None \<Rightarrow> [s] | Some (before, after) \<Rightarrow> [before, after])"

text \<open>\<^verbatim>\<open>s.split(c)\<close> for a one-character separator: every field, empty ones included.\<close>

fun py_split :: "char \<Rightarrow> string \<Rightarrow> string list" where
  "py_split c [] = [[]]"
| "py_split c (x # xs) =
     (if x = c then [] # py_split c xs
      else (case py_split c xs of
              [] \<Rightarrow> [[x]]
            | w # ws \<Rightarrow> (x # w) # ws))"

text \<open>\<^verbatim>\<open>sep.join(parts)\<close>.\<close>

fun py_join :: "string \<Rightarrow> string list \<Rightarrow> string" where
  "py_join sep [] = []"
| "py_join sep [p] = p"
| "py_join sep (p # q # ps) = p @ sep @ py_join sep (q # ps)"

text \<open>Indexing a list, \<^verbatim>\<open>xs[i]\<close> for \<open>i \<ge> 0\<close>: out of range raises.\<close>

definition py_index :: "'a list \<Rightarrow> nat \<Rightarrow> py_error + 'a" where
  "py_index xs i = (if i < length xs then Inr (xs ! i) else Inl IndexError)"

text \<open>
  \<^verbatim>\<open>str(n)\<close> for an integer: decimal digits, most significant first, with a minus sign
  for a negative number; and \<^verbatim>\<open>int(s, 10)\<close> on a text of decimal digits.
\<close>

definition digit_char :: "nat \<Rightarrow> char" where
  "digit_char d = char_of (48 + d)"

definition is_ascii_digit :: "char \<Rightarrow> bool" where
  "is_ascii_digit c = (48 \<le> (of_char c :: nat) \<and> (of_char c :: nat) \<le> 57)"

definition digit_val :: "char \<Rightarrow> nat" where
  "digit_val c = of_char c - 48"

fun dec_digits :: "nat \<Rightarrow> string" where
  "dec_digits n = (if n < 10 then [digit_char n] else dec_digits (n div 10) @ [digit_char (n mod 10)])"

declare dec_digits.simps [simp del]

definition str_int :: "int \<Rightarrow> string" where
  "str_int n = (if n < 0 then CHR ''-'' # dec_digits (nat (- n)) else dec_digits (nat n))"

definition int_of_digits :: "string \<Rightarrow> int" where
  "int_of_digits s = int (foldl (\<lambda>acc c. 10 * acc + digit_val c) 0 s)"

section \<open>The address library, as far as the expander reaches it\<close>

text \<open>
  \<^verbatim>\<open>IPv4Address._parse_octet\<close>: a non-empty text of at most three ASCII digits, with no
  leading zero unless it is \<^verbatim>\<open>0\<close> itself, whose value is at most 255.
\<close>

definition parse_octet :: "string \<Rightarrow> py_error + int" where
  "parse_octet octet_str =
     (if octet_str = [] then Inl ValueError
      else if \<not> list_all is_ascii_digit octet_str then Inl ValueError
      else if length octet_str > 3 then Inl ValueError
      else if octet_str \<noteq> ''0'' \<and> hd octet_str = CHR ''0'' then Inl ValueError
      else if int_of_digits octet_str > 255 then Inl ValueError
      else Inr (int_of_digits octet_str))"

text \<open>
  \<^verbatim>\<open>IPv4Address._ip_int_from_string\<close>: four octets separated by dots, read as one
  big-endian integer.
\<close>

fun from_bytes_big :: "int list \<Rightarrow> int" where
  "from_bytes_big bs = foldl (\<lambda>acc b. 256 * acc + b) 0 bs"

fun parse_octets :: "string list \<Rightarrow> py_error + int list" where
  "parse_octets [] = Inr []"
| "parse_octets (p # ps) =
     (case parse_octet p of
        Inl e \<Rightarrow> Inl e
      | Inr b \<Rightarrow> (case parse_octets ps of Inl e \<Rightarrow> Inl e | Inr bs \<Rightarrow> Inr (b # bs)))"

definition ip_int_from_string :: "string \<Rightarrow> py_error + int" where
  "ip_int_from_string ip_str =
     (if ip_str = [] then Inl ValueError
      else let octets = py_split CHR ''.'' ip_str in
        if length octets \<noteq> 4 then Inl ValueError
        else (case parse_octets octets of
                Inl e \<Rightarrow> Inl e
              | Inr bs \<Rightarrow> Inr (from_bytes_big bs)))"

text \<open>
  \<^verbatim>\<open>ipaddress.ip_address(text)\<close>, by the integer of the address it returns. The library
  tries the IPv4 reading and then the IPv6 reading; the latter splits the text at
  \<^verbatim>\<open>:\<close> and raises unless there are at least three parts. The expander hands over
  only texts from which everything from the first \<^verbatim>\<open>:\<close> on has been cut (lemma
  \<open>strip_target_no_colon\<close> below), so the IPv6 reading always raises there and the
  result, when there is one, is an IPv4 address. On a text with a colon this definition
  says nothing about the library.
\<close>

definition ip_address :: "string \<Rightarrow> py_error + int" where
  "ip_address address = ip_int_from_string address"

text \<open>
  \<^verbatim>\<open>str(IPv4Address(n))\<close>: the four bytes of \<open>n\<close>, most significant first, in decimal
  and joined by dots.
\<close>

definition to_bytes4 :: "int \<Rightarrow> int list" where
  "to_bytes4 n = [n div 16777216 mod 256, n div 65536 mod 256, n div 256 mod 256, n mod 256]"

definition str_ipv4 :: "int \<Rightarrow> string" where
  "str_ipv4 n = py_join ''.'' (map str_int (to_bytes4 n))"

text \<open>
  \<^verbatim>\<open>[str(ip) for ip in ipaddress.ip_network(text, strict=False).hosts()]\<close> on a text
  with no \<^verbatim>\<open>/\<close> and no \<^verbatim>\<open>:\<close>, the only texts the expander hands over (lemmas
  \<open>strip_target_no_slash\<close> and \<open>strip_target_no_colon\<close>): with no mask in the text the
  prefix length is 32, and \<^verbatim>\<open>hosts()\<close> of a block of 32 bits is the list that
  holds its one address. The IPv6 reading raises as for \<open>ip_address\<close>.
\<close>

definition ip_network_hosts :: "string \<Rightarrow> py_error + string list" where
  "ip_network_hosts address =
     (case ip_int_from_string address of
        Inl e \<Rightarrow> Inl ValueError
      | Inr n \<Rightarrow> Inr [str_ipv4 n])"

section \<open>Target expansion (\<^verbatim>\<open>core/aggregator.py\<close>)\<close>

text \<open>
  \<^verbatim>\<open>_dedupe_preserve_order\<close>: the loop over \<open>items\<close> with its two variables, the
  set \<open>seen\<close> and the list \<open>out\<close>.
\<close>

fun dedupe_loop :: "'a list \<Rightarrow> 'a set \<Rightarrow> 'a list \<Rightarrow> 'a list" where
  "dedupe_loop [] seen out = out"
| "dedupe_loop (x # items) seen out =
     (if x \<notin> seen then dedupe_loop items (insert x seen) (out @ [x])
      else dedupe_loop items seen out)"

definition dedupe_preserve_order :: "'a list \<Rightarrow> 'a list" where
  "dedupe_preserve_order items = dedupe_loop items {} []"

text \<open>
  Two descriptions of the result, used to state what the loop computes. \<open>keep_new\<close> is
  the loop read as a function of the items still to come. \<open>first_occurrences\<close> says it
  by positions: the item at position \<open>i\<close> stays exactly when it does not occur among the
  items before position \<open>i\<close>.
\<close>

fun keep_new :: "'a set \<Rightarrow> 'a list \<Rightarrow> 'a list" where
  "keep_new seen [] = []"
| "keep_new seen (x # xs) = (if x \<in> seen then keep_new seen xs else x # keep_new (insert x seen) xs)"

definition first_occurrences :: "'a list \<Rightarrow> 'a list" where
  "first_occurrences xs =
     map (nth xs) (filter (\<lambda>i. xs ! i \<notin> set (take i xs)) [0..<length xs])"

text \<open>
  Lines 43 to 49 of \<^verbatim>\<open>expand_targets\<close>: the scheme, the path and the port are cut
  off. \<^verbatim>\<open>s.split("://", 1)[1]\<close> is an indexing that raises when the list is too short.
\<close>

definition strip_target :: "string \<Rightarrow> py_error + string" where
  "strip_target s =
     (case (if contains s ''://'' then py_index (split_once ''://'' s) 1 else Inr s) of
        Inl e \<Rightarrow> Inl e
      | Inr s1 \<Rightarrow>
          (case py_index (split_once ''/'' s1) 0 of
             Inl e \<Rightarrow> Inl e
           | Inr s2 \<Rightarrow>
               if contains s2 '':'' then py_index (split_once '':'' s2) 0 else Inr s2))"

text \<open>What \<open>strip_target\<close> keeps of a text with a scheme: the part after the first \<^verbatim>\<open>://\<close>.\<close>

definition after_scheme :: "string \<Rightarrow> string" where
  "after_scheme s = (case cut_first ''://'' s of None \<Rightarrow> s | Some (a, b) \<Rightarrow> b)"

text \<open>
  The \<^verbatim>\<open>while\<close> loop of the range rule, on the integer of \<open>cur\<close>. The guard gives
  \<open>cur \<le> end\<close>, and \<open>end\<close> is an IPv4 address, so the address printed is an IPv4 address
  and \<open>cur + 1\<close> is at most \<open>2 ^ 32\<close>, an integer \<^verbatim>\<open>ip_address\<close> accepts (as the
  IPv6 address of that value): the step does not raise.
\<close>

function range_loop :: "int \<Rightarrow> int \<Rightarrow> string list \<Rightarrow> string list" where
  "range_loop cur end out =
     (if cur \<le> end then range_loop (cur + 1) end (out @ [str_ipv4 cur]) else out)"
  by pat_completeness auto
termination
  by (relation "measure (\<lambda>(cur, end, out). nat (end + 1 - cur))") auto

declare range_loop.simps [simp del]

text \<open>
  The body of the \<^verbatim>\<open>try\<close> of the range rule (lines 55 to 69). \<open>Inr (Some ts)\<close>: the
  range was enumerated into \<open>ts\<close> and the loop goes on to the next line
  (\<^verbatim>\<open>continue\<close>); \<open>Inr None\<close>: the left bound is above the right one, nothing is
  emitted; \<open>Inl e\<close>: the body raised \<open>e\<close>.
\<close>

definition range_body :: "string \<Rightarrow> string \<Rightarrow> py_error + string list option" where
  "range_body left right =
     (case ip_address left of
        Inl e \<Rightarrow> Inl e
      | Inr start \<Rightarrow>
          (case (if contains right ''.'' then ip_address right
                 else let base = py_split CHR ''.'' left in
                   if length base \<noteq> 4 then Inl ValueError
                   else ip_address (py_join ''.'' (take 3 base @ [right]))) of
             Inl e \<Rightarrow> Inl e
           | Inr end \<Rightarrow>
               if start \<le> end then Inr (Some (range_loop start end [])) else Inr None))"

text \<open>
  The range rule with its handler: \<^verbatim>\<open>left, right = s.split("-", 1)\<close> stands before
  the \<^verbatim>\<open>try\<close> and raises \<open>ValueError\<close> unless the list has two elements;
  \<^verbatim>\<open>except ValueError: pass\<close> turns a \<open>ValueError\<close> of the body into a fall-through
  and lets any other exception pass.
\<close>

definition range_rule :: "string \<Rightarrow> py_error + string list option" where
  "range_rule s =
     (case split_once ''-'' s of
        [left, right] \<Rightarrow>
          (case range_body left right of
             Inl ValueError \<Rightarrow> Inr None
           | Inl e \<Rightarrow> Inl e
           | Inr r \<Rightarrow> Inr r)
      | _ \<Rightarrow> Inl ValueError)"

text \<open>
  Lines 74 to 90: the network rule, the single-address rule, and the host name as the
  last resort. Each \<^verbatim>\<open>try\<close> catches \<open>ValueError\<close> only.
\<close>

definition later_rules :: "string \<Rightarrow> py_error + string list" where
  "later_rules s =
     (case ip_network_hosts s of
        Inr hosts \<Rightarrow> Inr hosts
      | Inl ValueError \<Rightarrow>
          (case ip_address s of
             Inr ip \<Rightarrow> Inr [str_ipv4 ip]
           | Inl ValueError \<Rightarrow> Inr [s]
           | Inl e \<Rightarrow> Inl e)
      | Inl e \<Rightarrow> Inl e)"

text \<open>
  One pass of the \<^verbatim>\<open>for raw in lines\<close> loop: what the body appends to \<open>out\<close> for the
  line \<open>raw\<close>, or the exception that leaves it.
\<close>

definition expand_line :: "string \<Rightarrow> py_error + string list" where
  "expand_line raw =
     (let s = py_strip raw in
      if s = [] \<or> startswith s ''#'' then Inr []
      else
        (case strip_target s of
           Inl e \<Rightarrow> Inl e
         | Inr s' \<Rightarrow>
             if contains s' ''-'' then
               (case range_rule s' of
                  Inl e \<Rightarrow> Inl e
                | Inr (Some ts) \<Rightarrow> Inr ts
                | Inr None \<Rightarrow> later_rules s')
             else later_rules s'))"

fun expand_loop :: "string list \<Rightarrow> string list \<Rightarrow> py_error + string list" where
  "expand_loop [] out = Inr out"
| "expand_loop (raw # lines) out =
     (case expand_line raw of
        Inl e \<Rightarrow> Inl e
      | Inr ts \<Rightarrow> expand_loop lines (out @ ts))"

definition expand_targets :: "string list \<Rightarrow> py_error + string list" where
  "expand_targets lines =
     (case expand_loop lines [] of
        Inl e \<Rightarrow> Inl e
      | Inr out \<Rightarrow> Inr (dedupe_preserve_order out))"

section \<open>Liveness probing (\<^verbatim>\<open>core/aggregator.py\<close>)\<close>

text \<open>
  The two effects of \<^verbatim>\<open>fping_alive\<close> are inputs of the model. \<open>run\<close> is the call of
  \<^verbatim>\<open>subprocess.run\<close> on the host list: it raises (\<open>RunRaised\<close>: the input could not
  be encoded or the process could not be started), or it returns the exit status of the
  shell and its standard output, whose decoding gives a text or raises (\<open>None\<close>).
  \<open>connect i h\<close> says whether the \<open>i\<close>-th call of
  \<^verbatim>\<open>socket.create_connection((h, 80), timeout=1)\<close> of the fallback loop returns a
  connection; the timeout itself, a real time, is not part of the model.
\<close>

datatype proc_result = RunRaised | Completed int "string option"

text \<open>\<^verbatim>\<open>str.splitlines()\<close> on the code points below 256; CR LF is one line break.\<close>

definition is_linebreak :: "char \<Rightarrow> bool" where
  "is_linebreak c = (of_char c \<in> {10, 11, 12, 13, 28, 29, 30, 133 :: nat})"

function py_splitlines :: "string \<Rightarrow> string list" where
  "py_splitlines s =
     (if s = [] then []
      else
        (case dropWhile (\<lambda>c. \<not> is_linebreak c) s of
           [] \<Rightarrow> [s]
         | b # rest \<Rightarrow>
             takeWhile (\<lambda>c. \<not> is_linebreak c) s #
             py_splitlines
               (if b = CHR 0x0D \<and> startswith rest [CHR 0x0A] then tl rest else rest)))"
  by pat_completeness auto
termination
proof (relation "measure length")
  show "wf (measure length)" by simp
next
  fix s :: string and b rest
  assume "s \<noteq> []" and d: "dropWhile (\<lambda>c. \<not> is_linebreak c) s = b # rest"
  have "length (b # rest) \<le> length s"
    unfolding d [symmetric] by (rule length_dropWhile_le)
  moreover have "length (tl rest) \<le> length rest" by simp
  ultimately show
    "((if b = CHR 0x0D \<and> startswith rest [CHR 0x0A] then tl rest else rest), s)
       \<in> measure length"
    by auto
qed

declare py_splitlines.simps [simp del]

text \<open>The fallback loop: \<open>i\<close> counts the connection attempts made so far.\<close>

fun connect_loop :: "(nat \<Rightarrow> string \<Rightarrow> bool) \<Rightarrow> nat \<Rightarrow> string list \<Rightarrow> string list \<Rightarrow> string list" where
  "connect_loop connect i [] alive = alive"
| "connect_loop connect i (h # hosts) alive =
     connect_loop connect (Suc i) hosts (if connect i h then alive @ [h] else alive)"

text \<open>
  \<^verbatim>\<open>fping_alive\<close>. The exit status is not read (\<^verbatim>\<open>check=False\<close>); the handler
  \<^verbatim>\<open>except Exception\<close> is reached when \<^verbatim>\<open>subprocess.run\<close> or the decoding raises.
\<close>

definition fping_alive ::
  "(string list \<Rightarrow> proc_result) \<Rightarrow> (nat \<Rightarrow> string \<Rightarrow> bool) \<Rightarrow> string list \<Rightarrow> string list" where
  "fping_alive run connect hosts =
     (if hosts = [] then []
      else
        (case run hosts of
           Completed returncode (Some stdout) \<Rightarrow>
             dedupe_preserve_order
               (map py_strip (filter (\<lambda>x. py_strip x \<noteq> []) (py_splitlines stdout)))
         | _ \<Rightarrow> dedupe_preserve_order (connect_loop connect 0 hosts [])))"

section \<open>Findings (\<^verbatim>\<open>core/parse_engine.py\<close>)\<close>

text \<open>
  The values a field of a record can hold are those JSON and YAML give: \<^verbatim>\<open>None\<close>,
  booleans, integers, texts, lists and dictionaries with text keys. Floating-point numbers
  are left out. A dictionary is a list of key-value pairs in insertion order, with no key
  twice.
\<close>

datatype pyval =
  PNone | PBool bool | PInt int | PStr string | PList "pyval list" | PDict "(string \<times> pyval) list"

type_synonym dict = "(string \<times> pyval) list"

text \<open>Truth value testing, as \<^verbatim>\<open>not x\<close> and \<^verbatim>\<open>x or y\<close> use it.\<close>

fun truthy :: "pyval \<Rightarrow> bool" where
  "truthy PNone = False"
| "truthy (PBool b) = b"
| "truthy (PInt n) = (n \<noteq> 0)"
| "truthy (PStr s) = (s \<noteq> [])"
| "truthy (PList xs) = (xs \<noteq> [])"
| "truthy (PDict kvs) = (kvs \<noteq> [])"

definition py_or :: "pyval \<Rightarrow> pyval \<Rightarrow> pyval" where
  "py_or a b = (if truthy a then a else b)"

text \<open>
  \<^verbatim>\<open>d.get(k)\<close>, \<^verbatim>\<open>d.get(k, default)\<close>, \<^verbatim>\<open>d[k]\<close>, \<^verbatim>\<open>k in d\<close>,
  \<^verbatim>\<open>d[k] = v\<close> and \<^verbatim>\<open>d.setdefault(k, v)\<close>. Assigning to a key that is present keeps
  its place; a new key goes to the end.
\<close>

definition dict_get_default :: "dict \<Rightarrow> string \<Rightarrow> pyval \<Rightarrow> pyval" where
  "dict_get_default d k dflt = (case map_of d k of None \<Rightarrow> dflt | Some v \<Rightarrow> v)"

definition dict_get :: "dict \<Rightarrow> string \<Rightarrow> pyval" where
  "dict_get d k = dict_get_default d k PNone"

definition dict_item :: "dict \<Rightarrow> string \<Rightarrow> py_error + pyval" where
  "dict_item d k = (case map_of d k of None \<Rightarrow> Inl KeyError | Some v \<Rightarrow> Inr v)"

definition dict_has :: "dict \<Rightarrow> string \<Rightarrow> bool" where
  "dict_has d k = (map_of d k \<noteq> None)"

fun dict_set :: "dict \<Rightarrow> string \<Rightarrow> pyval \<Rightarrow> dict" where
  "dict_set [] k v = [(k, v)]"
| "dict_set ((k', v') # d) k v = (if k' = k then (k, v) # d else (k', v') # dict_set d k v)"

definition dict_setdefault :: "dict \<Rightarrow> string \<Rightarrow> pyval \<Rightarrow> dict" where
  "dict_setdefault d k v = (if dict_has d k then d else dict_set d k v)"

text \<open>
  \<^verbatim>\<open>repr\<close> of a text on the code points below 256: single quotes unless the text holds
  a single quote and no double quote; the quote in use and the backslash are escaped, TAB,
  LF and CR are written \<^verbatim>\<open>\t\<close>, \<^verbatim>\<open>\n\<close>, \<^verbatim>\<open>\r\<close>, and every other
  non-printable character as \<^verbatim>\<open>\x\<close> and two hexadecimal digits.
\<close>

definition hex_digit :: "nat \<Rightarrow> char" where
  "hex_digit d = ''0123456789abcdef'' ! d"

definition py_isprintable :: "char \<Rightarrow> bool" where
  "py_isprintable c =
     (let n = of_char c :: nat in \<not> (n < 32 \<or> (127 \<le> n \<and> n \<le> 160) \<or> n = 173))"

definition repr_char :: "char \<Rightarrow> char \<Rightarrow> string" where
  "repr_char quote c =
     (if c = quote \<or> c = CHR 0x5C then [CHR 0x5C, c]
      else if c = CHR 0x09 then [CHR 0x5C, CHR ''t'']
      else if c = CHR 0x0A then [CHR 0x5C, CHR ''n'']
      else if c = CHR 0x0D then [CHR 0x5C, CHR ''r'']
      else if \<not> py_isprintable c then
        [CHR 0x5C, CHR ''x'', hex_digit (of_char c div 16), hex_digit (of_char c mod 16)]
      else [c])"

definition repr_str :: "string \<Rightarrow> string" where
  "repr_str s =
     (let quote = (if CHR 0x27 \<in> set s \<and> CHR 0x22 \<notin> set s then CHR 0x22 else CHR 0x27)
      in quote # concat (map (repr_char quote) s) @ [quote])"

text \<open>\<^verbatim>\<open>repr(x)\<close> and \<^verbatim>\<open>str(x)\<close>; they differ on a text only.\<close>

fun py_repr :: "pyval \<Rightarrow> string" where
  "py_repr PNone = ''None''"
| "py_repr (PBool b) = (if b then ''True'' else ''False'')"
| "py_repr (PInt n) = str_int n"
| "py_repr (PStr s) = repr_str s"
| "py_repr (PList xs) = ''['' @ py_join '', '' (map py_repr xs) @ '']''"
| "py_repr (PDict kvs) =
     ''{'' @ py_join '', '' (map (\<lambda>kv. repr_str (fst kv) @ '': '' @ py_repr (snd kv)) kvs) @ ''}''"

definition py_str :: "pyval \<Rightarrow> string" where
  "py_str x = (case x of PStr s \<Rightarrow> s | _ \<Rightarrow> py_repr x)"

text \<open>
  \<^verbatim>\<open>_ensure_soft_schema\<close>. \<open>now\<close> is the text of
  \<^verbatim>\<open>datetime.datetime.utcnow().isoformat()\<close> at the call. The loop over the four
  fallback keys stops at the first key whose value is truthy.
\<close>

fun asset_loop :: "dict \<Rightarrow> string list \<Rightarrow> py_error + dict" where
  "asset_loop obj [] = Inr obj"
| "asset_loop obj (k # ks) =
     (if truthy (dict_get obj k) then
        (case dict_item obj k of Inl e \<Rightarrow> Inl e | Inr v \<Rightarrow> Inr (dict_set obj ''asset'' v))
      else asset_loop obj ks)"

definition summary_step :: "dict \<Rightarrow> dict" where
  "summary_step obj =
     (if \<not> truthy (dict_get obj ''summary'') then
        (let title = py_or (py_or (dict_get obj ''title'') (dict_get obj ''service''))
                       (dict_get obj ''status'')
         in dict_set obj ''summary'' (PStr (py_str (py_or title (PStr ''finding'')))))
      else obj)"

definition partial_step :: "dict \<Rightarrow> dict" where
  "partial_step obj =
     (let missing = filter (\<lambda>k. \<not> truthy (dict_get obj k)) [''asset'', ''summary'']
      in dict_set obj ''partial'' (PBool (missing \<noteq> [])))"

definition ensure_soft_schema :: "dict \<Rightarrow> dict \<Rightarrow> string \<Rightarrow> py_error + dict" where
  "ensure_soft_schema obj ctx now =
     (case dict_item ctx ''run_id'' of
        Inl e \<Rightarrow> Inl e
      | Inr run_id \<Rightarrow>
          (let obj1 = dict_setdefault obj ''run_id'' run_id;
               obj2 = dict_setdefault obj1 ''ts'' (PStr (now @ ''Z''))
           in case (if \<not> truthy (dict_get obj2 ''asset'')
                    then asset_loop obj2 [''url'', ''host'', ''ip'', ''domain'']
                    else Inr obj2) of
                Inl e \<Rightarrow> Inl e
              | Inr obj3 \<Rightarrow>
                  (let obj4 = partial_step (summary_step obj3)
                   in Inr (if \<not> dict_has obj4 ''severity''
                           then dict_set obj4 ''severity'' (PStr ''unknown'')
                           else obj4))))"

text \<open>\<^verbatim>\<open>_emit\<close>: the list of records is passed in and returned.\<close>

definition emit :: "dict \<Rightarrow> dict \<Rightarrow> string \<Rightarrow> dict list \<Rightarrow> py_error + dict list" where
  "emit obj ctx now out_records =
     (case ensure_soft_schema obj ctx now of
        Inl e \<Rightarrow> Inl e
      | Inr obj' \<Rightarrow>
          if \<not> truthy (dict_get obj' ''tool'') \<or> \<not> truthy (dict_get obj' ''asset'')
             \<or> \<not> truthy (dict_get obj' ''summary'')
          then Inr out_records
          else Inr (out_records @ [obj']))"

section \<open>The extraction engine (\<^verbatim>\<open>core/parse_engine.py\<close>)\<close>

text \<open>
  \<^verbatim>\<open>parse_and_merge\<close> reads rule files and tool output through libraries; what they
  return is the environment of the model:
  \<^item> \<open>safe_load p\<close>: \<^verbatim>\<open>yaml.safe_load(open(p, "rb"))\<close> for the rule file \<open>p\<close>, a value
    or the exception raised;
  \<^item> \<open>glob_files pat\<close>: the paths \<^verbatim>\<open>glob.glob(str(run_root / pat))\<close> returns;
  \<^item> \<open>open_lines path\<close>: the lines of the file, \<open>None\<close> when \<^verbatim>\<open>open\<close> raises;
  \<^item> \<open>json_loads line\<close>: the value of the line, \<open>None\<close> when \<^verbatim>\<open>json.loads\<close> raises;
  \<^item> \<open>jmespath_search expr v\<close>: \<^verbatim>\<open>jmespath.search(expr, v)\<close>;
  \<^item> \<open>etree_parse path\<close>: the root of the parsed document, \<open>None\<close> when parsing raises;
  \<^item> \<open>xpath elem expr\<close>: \<^verbatim>\<open>elem.xpath(expr)\<close>, a list of nodes and texts or one value;
  \<^item> \<open>utcnow i\<close>: the clock as read by the \<open>i\<close>-th call of \<^verbatim>\<open>_emit\<close>.
\<close>

datatype xml = Element string "string option" "xml list"

datatype xitem = XElem xml | XText string

datatype xresult = XList "xitem list" | XScalar pyval

record env =
  safe_load :: "string \<Rightarrow> py_error + pyval"
  glob_files :: "string \<Rightarrow> string list"
  open_lines :: "string \<Rightarrow> string list option"
  json_loads :: "string \<Rightarrow> pyval option"
  jmespath_search :: "pyval \<Rightarrow> pyval \<Rightarrow> py_error + pyval"
  etree_parse :: "string \<Rightarrow> xml option"
  xpath :: "xml \<Rightarrow> pyval \<Rightarrow> py_error + xresult"
  utcnow :: "nat \<Rightarrow> string"

text \<open>
  \<^verbatim>\<open>s.replace(old, new)\<close>: every occurrence of \<open>old\<close>, found from the left and not
  overlapping, gives way to \<open>new\<close>; with an empty \<open>old\<close>, \<open>new\<close> is put before every
  character and at the end.
\<close>

function replace_nonempty :: "string \<Rightarrow> string \<Rightarrow> string \<Rightarrow> string" where
  "replace_nonempty old new s =
     (if s = [] \<or> old = [] then s
      else if startswith s old then new @ replace_nonempty old new (drop (length old) s)
      else hd s # replace_nonempty old new (tl s))"
  by pat_completeness auto
termination
  by (relation "measure (\<lambda>(old, new, s). length s)") auto

declare replace_nonempty.simps [simp del]

definition py_replace :: "string \<Rightarrow> string \<Rightarrow> string \<Rightarrow> string" where
  "py_replace old new s =
     (if old = [] then new @ concat (map (\<lambda>c. c # new) s) else replace_nonempty old new s)"

text \<open>\<^verbatim>\<open>_sub_literals\<close>: one replacement for each entry of the context, in its order.\<close>

fun sub_literals :: "string \<Rightarrow> dict \<Rightarrow> string" where
  "sub_literals out [] = out"
| "sub_literals out ((k, v) # ctx) =
     sub_literals (py_replace (''{{'' @ k @ ''}}'') (py_str v) out) ctx"

text \<open>
  The test both evaluators start with: the expression is a text of at least two characters
  that starts and ends with a single quote.
\<close>

definition quoted :: "pyval \<Rightarrow> string option" where
  "quoted expr =
     (case expr of
        PStr e \<Rightarrow>
          if length e \<ge> 2 \<and> hd e = CHR 0x27 \<and> last e = CHR 0x27 then Some (butlast (tl e))
          else None
      | _ \<Rightarrow> None)"

definition eval_jmes :: "env \<Rightarrow> pyval \<Rightarrow> pyval \<Rightarrow> dict \<Rightarrow> pyval" where
  "eval_jmes E expr record ctx =
     (case quoted expr of
        Some inner \<Rightarrow> PStr (sub_literals inner ctx)
      | None \<Rightarrow> (case jmespath_search E expr record of Inl e \<Rightarrow> PNone | Inr v \<Rightarrow> v))"

text \<open>
  \<^verbatim>\<open>_eval_xpath\<close>. An item that is a text has no \<^verbatim>\<open>xpath\<close> method: the call
  raises and the handler returns \<^verbatim>\<open>None\<close>. Of a list the first element counts: the
  \<^verbatim>\<open>text\<close> of a node, or the text itself.
\<close>

definition eval_xpath :: "env \<Rightarrow> pyval \<Rightarrow> xitem \<Rightarrow> dict \<Rightarrow> pyval" where
  "eval_xpath E expr elem ctx =
     (case quoted expr of
        Some inner \<Rightarrow> PStr (sub_literals inner ctx)
      | None \<Rightarrow>
          (case (case elem of XElem x \<Rightarrow> xpath E x expr | XText s \<Rightarrow> Inl AttributeError) of
             Inl e \<Rightarrow> PNone
           | Inr (XScalar v) \<Rightarrow> v
           | Inr (XList []) \<Rightarrow> PNone
           | Inr (XList (XText s # rest)) \<Rightarrow> PStr s
           | Inr (XList (XElem (Element tag txt kids) # rest)) \<Rightarrow>
               (case txt of None \<Rightarrow> PNone | Some s \<Rightarrow> PStr s)))"

text \<open>
  The loop \<^verbatim>\<open>for k, expr in fields.items(): obj[k] = ...\<close>, for either evaluator
  \<open>ev\<close>; \<^verbatim>\<open>fields.items()\<close> raises unless \<open>fields\<close> is a dictionary.
\<close>

fun build_obj :: "(pyval \<Rightarrow> pyval) \<Rightarrow> dict \<Rightarrow> dict \<Rightarrow> dict" where
  "build_obj ev [] obj = obj"
| "build_obj ev ((k, expr) # field_map) obj = build_obj ev field_map (dict_set obj k (ev expr))"

definition dict_items :: "pyval \<Rightarrow> py_error + dict" where
  "dict_items field_map = (case field_map of PDict kvs \<Rightarrow> Inr kvs | _ \<Rightarrow> Inl AttributeError)"

text \<open>
  The state of the run: the records emitted so far and the number of calls of
  \<^verbatim>\<open>_emit\<close> made so far. \<open>emit_item\<close> is the body of the innermost loops: build the
  record from the field map, then \<^verbatim>\<open>_emit\<close>.
\<close>

type_synonym run_state = "dict list \<times> nat"

definition emit_item ::
  "env \<Rightarrow> (pyval \<Rightarrow> pyval) \<Rightarrow> pyval \<Rightarrow> dict \<Rightarrow> run_state \<Rightarrow> py_error + run_state" where
  "emit_item E ev field_map ctx st =
     (case dict_items field_map of
        Inl e \<Rightarrow> Inl e
      | Inr kvs \<Rightarrow>
          (case emit (build_obj ev kvs []) ctx (utcnow E (snd st)) (fst st) of
             Inl e \<Rightarrow> Inl e
           | Inr out_records \<Rightarrow> Inr (out_records, Suc (snd st))))"

text \<open>The record-stream rule: items of one line, lines of one file, files of one rule.\<close>

fun ndjson_items ::
  "env \<Rightarrow> pyval \<Rightarrow> dict \<Rightarrow> pyval list \<Rightarrow> run_state \<Rightarrow> py_error + run_state" where
  "ndjson_items E field_map ctx [] st = Inr st"
| "ndjson_items E field_map ctx (itm # items) st =
     (if itm = PNone then ndjson_items E field_map ctx items st
      else
        (case emit_item E (\<lambda>expr. eval_jmes E expr itm ctx) field_map ctx st of
           Inl e \<Rightarrow> Inl e
         | Inr st' \<Rightarrow> ndjson_items E field_map ctx items st'))"

fun ndjson_lines ::
  "env \<Rightarrow> pyval \<Rightarrow> pyval \<Rightarrow> dict \<Rightarrow> string list \<Rightarrow> run_state \<Rightarrow> py_error + run_state" where
  "ndjson_lines E rec_expr field_map ctx [] st = Inr st"
| "ndjson_lines E rec_expr field_map ctx (line # rest) st =
     (if py_strip line = [] then ndjson_lines E rec_expr field_map ctx rest st
      else
        (case json_loads E (py_strip line) of
           None \<Rightarrow> ndjson_lines E rec_expr field_map ctx rest st
         | Some raw \<Rightarrow>
             (case jmespath_search E rec_expr raw of
                Inl e \<Rightarrow> Inl e
              | Inr base \<Rightarrow>
                  (case ndjson_items E field_map ctx
                          (case base of PList xs \<Rightarrow> xs | _ \<Rightarrow> [base]) st of
                     Inl e \<Rightarrow> Inl e
                   | Inr st' \<Rightarrow> ndjson_lines E rec_expr field_map ctx rest st'))))"

fun ndjson_files ::
  "env \<Rightarrow> pyval \<Rightarrow> pyval \<Rightarrow> dict \<Rightarrow> string list \<Rightarrow> run_state \<Rightarrow> py_error + run_state" where
  "ndjson_files E rec_expr field_map ctx [] st = Inr st"
| "ndjson_files E rec_expr field_map ctx (path # paths) st =
     (case open_lines E path of
        None \<Rightarrow> ndjson_files E rec_expr field_map ctx paths st
      | Some lines \<Rightarrow>
          (case ndjson_lines E rec_expr field_map ctx lines st of
             Inl e \<Rightarrow> Inl e
           | Inr st' \<Rightarrow> ndjson_files E rec_expr field_map ctx paths st'))"

text \<open>
  The tree rule. \<^verbatim>\<open>for elem in root.xpath(rx)\<close> runs over the list the query returns;
  over a text it runs character by character, and any other single value cannot be
  iterated.
\<close>

fun xml_elems ::
  "env \<Rightarrow> pyval \<Rightarrow> dict \<Rightarrow> xitem list \<Rightarrow> run_state \<Rightarrow> py_error + run_state" where
  "xml_elems E field_map ctx [] st = Inr st"
| "xml_elems E field_map ctx (elem # elems) st =
     (case emit_item E (\<lambda>expr. eval_xpath E expr elem ctx) field_map ctx st of
        Inl e \<Rightarrow> Inl e
      | Inr st' \<Rightarrow> xml_elems E field_map ctx elems st')"

definition iterate :: "xresult \<Rightarrow> py_error + xitem list" where
  "iterate r =
     (case r of
        XList items \<Rightarrow> Inr items
      | XScalar (PStr s) \<Rightarrow> Inr (map (\<lambda>c. XText [c]) s)
      | XScalar v \<Rightarrow> Inl TypeError)"

fun xml_files ::
  "env \<Rightarrow> pyval \<Rightarrow> pyval \<Rightarrow> dict \<Rightarrow> string list \<Rightarrow> run_state \<Rightarrow> py_error + run_state" where
  "xml_files E rx field_map ctx [] st = Inr st"
| "xml_files E rx field_map ctx (path # paths) st =
     (case etree_parse E path of
        None \<Rightarrow> xml_files E rx field_map ctx paths st
      | Some root \<Rightarrow>
          (case xpath E root rx of
             Inl e \<Rightarrow> Inl e
           | Inr r \<Rightarrow>
               (case iterate r of
                  Inl e \<Rightarrow> Inl e
                | Inr elems \<Rightarrow>
                    (case xml_elems E field_map ctx elems st of
                       Inl e \<Rightarrow> Inl e
                     | Inr st' \<Rightarrow> xml_files E rx field_map ctx paths st'))))"

text \<open>
  One pass of \<^verbatim>\<open>for p in parsers\<close>. The rule file is loaded outside any
  \<^verbatim>\<open>try\<close>; \<^verbatim>\<open>meta.get\<close> raises unless the document is a mapping, and
  \<^verbatim>\<open>run_root / glob_pat\<close> raises unless the pattern is a text.
\<close>

definition run_rule :: "env \<Rightarrow> dict \<Rightarrow> string \<Rightarrow> run_state \<Rightarrow> py_error + run_state" where
  "run_rule E ctx p st =
     (case safe_load E p of
        Inl e \<Rightarrow> Inl e
      | Inr loaded \<Rightarrow>
          (case py_or loaded (PDict []) of
             PDict meta \<Rightarrow>
               if dict_get meta ''type'' = PStr ''ndjson'' then
                 (case dict_get_default meta ''glob'' (PStr []) of
                    PStr glob_pat \<Rightarrow>
                      ndjson_files E (dict_get_default meta ''record_jmes'' (PStr ''@''))
                        (dict_get_default meta ''fields'' (PDict [])) ctx
                        (glob_files E glob_pat) st
                  | _ \<Rightarrow> Inl TypeError)
               else if dict_get meta ''type'' = PStr ''xml'' then
                 (case dict_get_default meta ''glob'' (PStr []) of
                    PStr glob_pat \<Rightarrow>
                      xml_files E (dict_get_default meta ''record_xpath'' (PStr []))
                        (dict_get_default meta ''fields'' (PDict [])) ctx
                        (glob_files E glob_pat) st
                  | _ \<Rightarrow> Inl TypeError)
               else Inr st
           | _ \<Rightarrow> Inl AttributeError))"

fun rules_loop :: "env \<Rightarrow> dict \<Rightarrow> string list \<Rightarrow> run_state \<Rightarrow> py_error + run_state" where
  "rules_loop E ctx [] st = Inr st"
| "rules_loop E ctx (p # parsers) st =
     (case run_rule E ctx p st of
        Inl e \<Rightarrow> Inl e
      | Inr st' \<Rightarrow> rules_loop E ctx parsers st')"

text \<open>
  \<^verbatim>\<open>parse_and_merge\<close>, for the sorted list \<open>parsers\<close> of rule files and the name of
  the run directory: the records it writes, one a line, to the merged file; the number it
  returns is their count.
\<close>

definition parse_and_merge :: "env \<Rightarrow> string \<Rightarrow> string list \<Rightarrow> py_error + dict list" where
  "parse_and_merge E run_name parsers =
     (case rules_loop E [(''run_id'', PStr run_name)] parsers ([], 0) of
        Inl e \<Rightarrow> Inl e
      | Inr st \<Rightarrow> Inr (fst st))"

text \<open>
  A concrete environment for the examples: the rule file \<^verbatim>\<open>10-broken.yaml\<close> cannot be
  parsed; \<^verbatim>\<open>20-nmap.yaml\<close> is a record-stream rule with a literal tool name that maps
  \<^verbatim>\<open>asset\<close> from \<^verbatim>\<open>host\<close> and \<^verbatim>\<open>summary\<close> from \<^verbatim>\<open>title\<close>; its one output
  file holds one line, the record with \<^verbatim>\<open>host\<close> 10.0.0.5 and \<^verbatim>\<open>title\<close>
  \<^verbatim>\<open>Open port\<close>. The query language is cut down to \<^verbatim>\<open>@\<close> and field names.
\<close>

definition nmap_rule :: pyval where
  "nmap_rule = PDict [(''type'', PStr ''ndjson''), (''glob'', PStr ''nmap.ndjson''),
     (''fields'', PDict [(''tool'', PStr [CHR 0x27, CHR ''n'', CHR ''m'', CHR ''a'', CHR ''p'', CHR 0x27]),
        (''asset'', PStr ''host''), (''summary'', PStr ''title'')])]"

definition field_query :: "pyval \<Rightarrow> pyval \<Rightarrow> py_error + pyval" where
  "field_query expr v =
     (case expr of
        PStr e \<Rightarrow>
          if e = ''@'' then Inr v
          else (case v of PDict d \<Rightarrow> Inr (dict_get d e) | _ \<Rightarrow> Inr PNone)
      | _ \<Rightarrow> Inl JMESPathError)"

definition example_env :: env where
  "example_env = \<lparr>
     safe_load = (\<lambda>p. if p = ''20-nmap.yaml'' then Inr nmap_rule else Inl YAMLError),
     glob_files = (\<lambda>pat. [pat]),
     open_lines = (\<lambda>path. Some [''line 1'']),
     json_loads = (\<lambda>line. Some (PDict [(''host'', PStr ''10.0.0.5''), (''title'', PStr ''Open port'')])),
     jmespath_search = field_query,
     etree_parse = (\<lambda>path. None),
     xpath = (\<lambda>elem expr. Inl XPathError),
     utcnow = (\<lambda>i. ''2025-01-01T00:00:00'') \<rparr>"

text \<open>
  Concrete environments for the examples below: a sweep whose shell returns exit status 1
  and prints nothing, a sweep that returns exit status 1 and prints two hosts (one of them
  twice, one between blanks, and an empty line), a sweep whose start raises, a network
  where every connection is established, and one where every host but \<^verbatim>\<open>b\<close>
  answers.
\<close>

definition run_exit_1 :: "string list \<Rightarrow> proc_result" where
  "run_exit_1 hosts = Completed 1 (Some [])"

definition run_exit_1_two_alive :: "string list \<Rightarrow> proc_result" where
  "run_exit_1_two_alive hosts =
     Completed 1 (Some (''10.0.0.2'' @ [CHR 0x0A] @ '' 10.0.0.3 '' @ [CHR 0x0A, CHR 0x0A]
       @ ''10.0.0.2'' @ [CHR 0x0A]))"

definition run_raises :: "string list \<Rightarrow> proc_result" where
  "run_raises hosts = RunRaised"

definition connect_all :: "nat \<Rightarrow> string \<Rightarrow> bool" where
  "connect_all i h = True"

definition connect_not_b :: "nat \<Rightarrow> string \<Rightarrow> bool" where
  "connect_not_b i h = (h \<noteq> ''b'')"

section \<open>Properties\<close>

subsection \<open>Order-preserving deduplication\<close>

lemma dedupe_loop_keep_new: "dedupe_loop items seen out = out @ keep_new seen items"
  by (induction items arbitrary: seen out) auto

lemma keep_new_nth:
  "keep_new seen xs =
     map (nth xs) (filter (\<lambda>i. xs ! i \<notin> seen \<and> xs ! i \<notin> set (take i xs)) [0..<length xs])"
proof (induction xs arbitrary: seen)
  case Nil
  show ?case by simp
next
  case (Cons x xs)
  let ?P = "\<lambda>i. (x # xs) ! i \<notin> seen \<and> (x # xs) ! i \<notin> set (take i (x # xs))"
  let ?Q = "\<lambda>i. xs ! i \<notin> insert x seen \<and> xs ! i \<notin> set (take i xs)"
  have upt: "[0..<length (x # xs)] = 0 # map Suc [0..<length xs]"
    by (simp add: upt_conv_Cons map_Suc_upt del: upt_Suc)
  have PS: "?P \<circ> Suc = ?Q"
    by (auto simp: fun_eq_iff)
  have "map (nth (x # xs)) (filter ?P (map Suc [0..<length xs])) =
        map (nth (x # xs) \<circ> Suc) (filter (?P \<circ> Suc) [0..<length xs])"
    by (simp only: filter_map map_map)
  also have "nth (x # xs) \<circ> Suc = nth xs"
    by (simp add: fun_eq_iff)
  finally have tail: "map (nth (x # xs)) (filter ?P (map Suc [0..<length xs])) = keep_new (insert x seen) xs"
    by (simp only: PS Cons.IH [of "insert x seen"])
  have head: "?P 0 = (x \<notin> seen)"
    by simp
  have "map (nth (x # xs)) (filter ?P [0..<length (x # xs)]) =
        (if x \<notin> seen then x # keep_new (insert x seen) xs else keep_new (insert x seen) xs)"
    by (simp only: upt filter.simps tail list.map nth_Cons_0 if_distrib [of "map (nth (x # xs))"]) simp
  moreover have "x \<in> seen \<Longrightarrow> insert x seen = seen"
    by auto
  ultimately show ?case
    by (simp only: keep_new.simps) auto
qed

lemma dedupe_first_occurrences: "dedupe_preserve_order xs = first_occurrences xs"
  by (simp add: dedupe_preserve_order_def first_occurrences_def dedupe_loop_keep_new keep_new_nth)

lemma keep_new_distinct: "distinct (keep_new seen xs) \<and> set (keep_new seen xs) = set xs - seen"
  by (induction xs arbitrary: seen) auto

lemma dedupe_distinct: "distinct (dedupe_preserve_order xs)"
  by (simp add: dedupe_preserve_order_def dedupe_loop_keep_new keep_new_distinct)

lemma dedupe_set: "set (dedupe_preserve_order xs) = set xs"
  by (simp add: dedupe_preserve_order_def dedupe_loop_keep_new keep_new_distinct)

lemma keep_new_subseq: "subseq (keep_new seen xs) xs"
  by (induction xs arbitrary: seen) auto

lemma dedupe_subseq: "subseq (dedupe_preserve_order xs) xs"
  by (simp add: dedupe_preserve_order_def dedupe_loop_keep_new keep_new_subseq)

lemma keep_new_id: "distinct xs \<Longrightarrow> set xs \<inter> seen = {} \<Longrightarrow> keep_new seen xs = xs"
  by (induction xs arbitrary: seen) auto

lemma dedupe_distinct_id: "distinct xs \<Longrightarrow> dedupe_preserve_order xs = xs"
  by (simp add: dedupe_preserve_order_def dedupe_loop_keep_new keep_new_id)

lemma connect_loop_eq:
  "connect_loop connect i hosts alive =
     alive @ map snd (filter (\<lambda>(j, h). connect j h) (zip [i..<i + length hosts] hosts))"
proof (induction hosts arbitrary: i alive)
  case Nil
  show ?case by simp
next
  case (Cons h hosts)
  have upt: "[i..<i + length (h # hosts)] = i # [Suc i..<Suc i + length hosts]"
    by (simp add: upt_conv_Cons del: upt_Suc)
  show ?case
    unfolding upt by (simp add: Cons.IH del: upt_Suc)
qed

lemma connect_loop_subseq: "subseq (connect_loop connect 0 hosts []) hosts"
proof -
  have "subseq (map snd (filter (\<lambda>(j, h). connect j h) (zip [0..<length hosts] hosts)))
          (map snd (zip [0..<length hosts] hosts))"
    by (intro subseq_map subseq_filter_left)
  then show ?thesis by (simp add: connect_loop_eq)
qed

lemma connect_loop_set:
  "set (connect_loop connect 0 hosts []) = {hosts ! i | i. i < length hosts \<and> connect i (hosts ! i)}"
proof -
  have "set (connect_loop connect 0 hosts []) =
        snd ` {p \<in> set (zip [0..<length hosts] hosts). connect (fst p) (snd p)}"
    by (simp add: connect_loop_eq case_prod_unfold)
  also have "\<dots> = {hosts ! i | i. i < length hosts \<and> connect i (hosts ! i)}"
  proof (intro set_eqI iffI)
    fix x assume "x \<in> snd ` {p \<in> set (zip [0..<length hosts] hosts). connect (fst p) (snd p)}"
    then show "x \<in> {hosts ! i | i. i < length hosts \<and> connect i (hosts ! i)}"
      by (auto simp: set_zip)
  next
    fix x assume "x \<in> {hosts ! i | i. i < length hosts \<and> connect i (hosts ! i)}"
    then obtain i where i: "i < length hosts" "connect i (hosts ! i)" "x = hosts ! i" by auto
    then have "(i, hosts ! i) \<in> set (zip [0..<length hosts] hosts)"
      by (auto simp: in_set_zip intro!: exI [of _ i])
    with i show "x \<in> snd ` {p \<in> set (zip [0..<length hosts] hosts). connect (fst p) (snd p)}"
      by force
  qed
  finally show ?thesis .
qed

subsection \<open>The expander returns\<close>

lemma startswith_char [simp]: "startswith (x # xs) [c] = (x = c)"
  by (simp add: startswith_def)

lemma contains_char: "contains s [c] = (c \<in> set s)"
  by (induction s) (auto simp: startswith_def)

lemma contains_cut_first:
  "sep \<noteq> [] \<Longrightarrow> contains s sep \<Longrightarrow> \<exists>a b. cut_first sep s = Some (a, b)"
  by (induction s) (auto simp: startswith_def)

lemma cut_first_char:
  "cut_first [c] s =
     (if c \<in> set s then Some (takeWhile (\<lambda>x. x \<noteq> c) s, tl (dropWhile (\<lambda>x. x \<noteq> c) s)) else None)"
  by (induction s) auto

lemma split_once_char:
  "split_once [c] s =
     (if c \<in> set s then [takeWhile (\<lambda>x. x \<noteq> c) s, tl (dropWhile (\<lambda>x. x \<noteq> c) s)] else [s])"
  by (simp add: split_once_def cut_first_char)

lemma takeWhile_absent: "c \<notin> set s \<Longrightarrow> takeWhile (\<lambda>x. x \<noteq> c) s = s"
  by (induction s) auto

lemma split_once_char_0: "py_index (split_once [c] s) 0 = Inr (takeWhile (\<lambda>x. x \<noteq> c) s)"
  by (simp add: split_once_char py_index_def takeWhile_absent)

lemma cut_first_decomp: "cut_first sep s = Some (a, b) \<Longrightarrow> s = a @ sep @ b"
proof (induction s arbitrary: a)
  case Nil
  then show ?case by simp
next
  case (Cons c cs)
  show ?case
  proof (cases "startswith (c # cs) sep")
    case True
    with Cons.prems have "a = []" "b = drop (length sep) (c # cs)" by auto
    moreover from True have "take (length sep) (c # cs) = sep" by (simp add: startswith_def)
    ultimately show ?thesis by (metis append_Nil append_take_drop_id)
  next
    case False
    with Cons.prems obtain a' where "cut_first sep cs = Some (a', b)" "a = c # a'"
      by (auto split: option.splits)
    with Cons.IH show ?thesis by auto
  qed
qed

lemma strip_target_eq:
  "strip_target s =
     Inr (takeWhile (\<lambda>x. x \<noteq> CHR '':'') (takeWhile (\<lambda>x. x \<noteq> CHR ''/'') (after_scheme s)))"
proof (cases "contains s ''://''")
  case True
  then obtain a b where ab: "cut_first ''://'' s = Some (a, b)"
    using contains_cut_first [of "''://''" s] by auto
  then have "py_index (split_once ''://'' s) 1 = Inr b"
    by (simp add: split_once_def py_index_def)
  with True ab show ?thesis
    by (simp add: strip_target_def split_once_char_0 after_scheme_def contains_char takeWhile_absent)
next
  case False
  have "cut_first sep s = None" if "\<not> contains s sep" for sep
    using that by (induction s) auto
  with False have "after_scheme s = s" by (simp add: after_scheme_def)
  with False show ?thesis
    by (simp add: strip_target_def split_once_char_0 contains_char takeWhile_absent)
qed

lemma strip_target_no_slash: "strip_target s = Inr t \<Longrightarrow> CHR ''/'' \<notin> set t"
  by (auto simp: strip_target_eq dest!: set_takeWhileD)

lemma strip_target_no_colon: "strip_target s = Inr t \<Longrightarrow> CHR '':'' \<notin> set t"
  by (auto simp: strip_target_eq dest!: set_takeWhileD)

lemma parse_octet_error: "parse_octet p = Inl e \<Longrightarrow> e = ValueError"
  by (auto simp: parse_octet_def split: if_splits)

lemma parse_octets_error: "parse_octets ps = Inl e \<Longrightarrow> e = ValueError"
  by (induction ps arbitrary: e) (auto split: sum.splits dest: parse_octet_error)

lemma ip_int_from_string_error: "ip_int_from_string s = Inl e \<Longrightarrow> e = ValueError"
  by (auto simp: ip_int_from_string_def Let_def split: if_splits sum.splits
      dest: parse_octets_error)

lemma ip_address_error: "ip_address s = Inl e \<Longrightarrow> e = ValueError"
  by (simp add: ip_address_def ip_int_from_string_error)

lemma range_body_error: "range_body left right = Inl e \<Longrightarrow> e = ValueError"
  by (auto simp: range_body_def Let_def split: sum.splits if_splits dest: ip_address_error)

lemma range_rule_total: "contains s ''-'' \<Longrightarrow> \<exists>r. range_rule s = Inr r"
proof -
  assume "contains s ''-''"
  then have "CHR ''-'' \<in> set s" by (simp add: contains_char)
  then obtain l r where lr: "split_once ''-'' s = [l, r]" by (simp add: split_once_char)
  show ?thesis
  proof (cases "range_body l r")
    case (Inl e)
    then have "e = ValueError" by (rule range_body_error)
    with Inl lr show ?thesis by (simp add: range_rule_def)
  next
    case (Inr x)
    with lr show ?thesis by (simp add: range_rule_def)
  qed
qed

lemma later_rules_cases:
  "later_rules s = (case ip_int_from_string s of Inl e \<Rightarrow> Inr [s] | Inr n \<Rightarrow> Inr [str_ipv4 n])"
  by (auto simp: later_rules_def ip_network_hosts_def ip_address_def
      split: sum.splits py_error.splits dest: ip_int_from_string_error)

lemma later_rules_total: "\<exists>ts. later_rules s = Inr ts"
  by (simp add: later_rules_cases split: sum.splits)

lemma expand_line_total: "\<exists>ts. expand_line raw = Inr ts"
proof -
  obtain t where t: "strip_target (py_strip raw) = Inr t" by (simp add: strip_target_eq)
  show ?thesis
  proof (cases "contains t ''-''")
    case True
    then obtain r where "range_rule t = Inr r" using range_rule_total by blast
    with t True later_rules_total [of t] show ?thesis
      by (cases r) (auto simp: expand_line_def Let_def)
  next
    case False
    with t later_rules_total [of t] show ?thesis
      by (auto simp: expand_line_def Let_def)
  qed
qed

lemma expand_loop_total: "\<exists>ts. expand_loop lines out = Inr ts"
proof (induction lines arbitrary: out)
  case Nil
  show ?case by simp
next
  case (Cons raw lines)
  obtain ts where "expand_line raw = Inr ts" using expand_line_total by blast
  with Cons.IH [of "out @ ts"] show ?case by simp
qed

lemma expand_targets_total: "\<exists>ts. expand_targets lines = Inr ts"
  using expand_loop_total [of lines "[]"] by (auto simp: expand_targets_def)

subsection \<open>Printing an address and reading it back\<close>

lemma of_char_digit_char: "d < 10 \<Longrightarrow> (of_char (digit_char d) :: nat) = 48 + d"
  by (simp add: digit_char_def)

lemma digit_val_digit_char: "d < 10 \<Longrightarrow> digit_val (digit_char d) = d"
  by (simp add: digit_val_def of_char_digit_char)

lemma is_ascii_digit_digit_char: "d < 10 \<Longrightarrow> is_ascii_digit (digit_char d)"
  by (simp add: is_ascii_digit_def of_char_digit_char)

lemma dec_digits_all_digits: "list_all is_ascii_digit (dec_digits n)"
proof (induction n rule: dec_digits.induct)
  case (1 n)
  show ?case
  proof (cases "n < 10")
    case True
    then show ?thesis by (subst dec_digits.simps) (simp add: is_ascii_digit_digit_char)
  next
    case False
    with "1.IH" have "list_all is_ascii_digit (dec_digits (n div 10))" by simp
    with False show ?thesis by (subst dec_digits.simps) (simp add: is_ascii_digit_digit_char)
  qed
qed

lemma dec_digits_value: "foldl (\<lambda>acc c. 10 * acc + digit_val c) 0 (dec_digits n) = n"
proof (induction n rule: dec_digits.induct)
  case (1 n)
  show ?case
  proof (cases "n < 10")
    case True
    then show ?thesis by (subst dec_digits.simps) (simp add: digit_val_digit_char)
  next
    case False
    with "1.IH" have "foldl (\<lambda>acc c. 10 * acc + digit_val c) 0 (dec_digits (n div 10)) = n div 10"
      by simp
    with False show ?thesis by (subst dec_digits.simps) (simp add: digit_val_digit_char)
  qed
qed

lemma dec_digits_nonempty: "dec_digits n \<noteq> []"
  by (subst dec_digits.simps) simp

lemma dec_digits_hd: "0 < n \<Longrightarrow> hd (dec_digits n) \<noteq> CHR ''0''"
proof (induction n rule: dec_digits.induct)
  case (1 n)
  show ?case
  proof (cases "n < 10")
    case True
    with "1.prems" have "(of_char (digit_char n) :: nat) \<noteq> of_char CHR ''0''"
      by (simp add: of_char_digit_char)
    then have "digit_char n \<noteq> CHR ''0''" by auto
    with True show ?thesis by (subst dec_digits.simps) simp
  next
    case False
    then have "0 < n div 10" by simp
    with "1.IH" False have "hd (dec_digits (n div 10)) \<noteq> CHR ''0''" by simp
    with False show ?thesis
      by (subst dec_digits.simps) (simp add: dec_digits_nonempty)
  qed
qed

lemma dec_digits_0: "dec_digits 0 = ''0''"
  by (subst dec_digits.simps) (simp add: digit_char_def char_of_eq_iff)

lemma dec_digits_length: "n < 1000 \<Longrightarrow> length (dec_digits n) \<le> 3"
  by (subst dec_digits.simps, simp, subst dec_digits.simps, simp, subst dec_digits.simps, simp)

lemma parse_octet_str_int: "0 \<le> b \<Longrightarrow> b < 256 \<Longrightarrow> parse_octet (str_int b) = Inr b"
proof -
  assume b: "0 \<le> b" "b < 256"
  let ?s = "dec_digits (nat b)"
  have s: "str_int b = ?s" using b by (simp add: str_int_def)
  have v: "int_of_digits ?s = b" using b by (simp add: int_of_digits_def dec_digits_value)
  have z: "?s \<noteq> ''0'' \<and> hd ?s = CHR ''0'' \<longleftrightarrow> False"
  proof (cases "nat b = 0")
    case True
    then show ?thesis by (simp add: dec_digits_0)
  next
    case False
    then show ?thesis using dec_digits_hd [of "nat b"] by simp
  qed
  have l: "length ?s \<le> 3" using b by (intro dec_digits_length) simp
  show ?thesis
    unfolding s parse_octet_def using b l
    by (simp only: dec_digits_nonempty dec_digits_all_digits v z if_False not_True_eq_False not_not)
       simp
qed

lemma is_ascii_digit_neq:
  "is_ascii_digit c \<Longrightarrow> c \<noteq> CHR ''.'' \<and> c \<noteq> CHR ''-'' \<and> c \<noteq> CHR ''/'' \<and> c \<noteq> CHR '':''
     \<and> c \<noteq> CHR ''#'' \<and> \<not> py_isspace c"
  by (auto simp: is_ascii_digit_def py_isspace_def)

lemma py_split_absent: "c \<notin> set a \<Longrightarrow> py_split c a = [a]"
  by (induction a) auto

lemma py_split_append: "c \<notin> set a \<Longrightarrow> py_split c (a @ c # rest) = a # py_split c rest"
  by (induction a) auto

lemma from_bytes_to_bytes4:
  assumes "0 \<le> n" and "n < 4294967296"
  shows "from_bytes_big (to_bytes4 n) = n"
proof -
  have d2: "n div 65536 = n div 256 div 256" and d3: "n div 16777216 = n div 256 div 256 div 256"
    by (simp_all add: zdiv_zmult2_eq)
  from assms have "n div 256 div 256 div 256 < 256" "0 \<le> n div 256 div 256 div 256"
    by simp_all
  then have m: "n div 256 div 256 div 256 mod 256 = n div 256 div 256 div 256"
    by simp
  have "from_bytes_big (to_bytes4 n) =
      256 * (256 * (256 * (n div 256 div 256 div 256) + n div 256 div 256 mod 256)
        + n div 256 mod 256) + n mod 256"
    by (simp add: to_bytes4_def d2 d3 m)
  also have "\<dots> = n"
    by (simp only: mult_div_mod_eq)
  finally show ?thesis .
qed

lemma to_bytes4_range: "b \<in> set (to_bytes4 n) \<Longrightarrow> 0 \<le> b \<and> b < 256"
  by (auto simp: to_bytes4_def)

lemma str_int_digits: "0 \<le> b \<Longrightarrow> list_all is_ascii_digit (str_int b)"
  by (simp add: str_int_def dec_digits_all_digits)

lemma str_int_nonempty: "str_int b \<noteq> []"
  by (simp add: str_int_def dec_digits_nonempty)

lemma str_ipv4_eq:
  "str_ipv4 n = str_int (n div 16777216 mod 256) @ ''.'' @ str_int (n div 65536 mod 256) @ ''.''
     @ str_int (n div 256 mod 256) @ ''.'' @ str_int (n mod 256)"
  by (simp add: str_ipv4_def to_bytes4_def)

lemma digits_no_dot: "list_all is_ascii_digit s \<Longrightarrow> CHR ''.'' \<notin> set s"
  by (auto simp: list_all_iff dest: is_ascii_digit_neq)

lemma py_split_str_ipv4:
  "py_split CHR ''.'' (str_ipv4 n) = map str_int (to_bytes4 n)"
proof -
  have nd: "CHR ''.'' \<notin> set (str_int (k mod 256))" for k :: int
    by (rule digits_no_dot, rule str_int_digits) simp
  show ?thesis
    by (simp add: str_ipv4_eq to_bytes4_def py_split_append nd py_split_absent)
qed

lemma parse_octets_str_int:
  "(\<And>b. b \<in> set bs \<Longrightarrow> 0 \<le> b \<and> b < 256) \<Longrightarrow> parse_octets (map str_int bs) = Inr bs"
  by (induction bs) (simp_all add: parse_octet_str_int)

lemma ip_int_from_string_str_ipv4:
  assumes "0 \<le> n" and "n < 4294967296"
  shows "ip_int_from_string (str_ipv4 n) = Inr n"
proof -
  have "str_ipv4 n \<noteq> []"
    by (simp add: str_ipv4_eq)
  moreover have "length (map str_int (to_bytes4 n)) = 4"
    by (simp add: to_bytes4_def)
  moreover have "parse_octets (map str_int (to_bytes4 n)) = Inr (to_bytes4 n)"
    by (rule parse_octets_str_int) (rule to_bytes4_range)
  ultimately show ?thesis
    using from_bytes_to_bytes4 [OF assms]
    by (simp add: ip_int_from_string_def py_split_str_ipv4 Let_def del: from_bytes_big.simps)
qed

lemma range_loop_eq: "range_loop cur end out = out @ map str_ipv4 [cur..end]"
proof (induction cur "end" out rule: range_loop.induct)
  case (1 cur e out)
  show ?case
  proof (cases "cur \<le> e")
    case True
    with "1.IH" have "range_loop (cur + 1) e (out @ [str_ipv4 cur]) =
        (out @ [str_ipv4 cur]) @ map str_ipv4 [cur + 1..e]" by simp
    with True show ?thesis
      by (subst range_loop.simps) (simp add: upto_rec1 [of cur e])
  next
    case False
    then show ?thesis by (subst range_loop.simps) simp
  qed
qed

lemma parse_octet_range: "parse_octet p = Inr b \<Longrightarrow> 0 \<le> b \<and> b < 256"
  by (auto simp: parse_octet_def int_of_digits_def split: if_splits)

lemma parse_octets_range:
  "parse_octets ps = Inr bs \<Longrightarrow> length bs = length ps \<and> (\<forall>b \<in> set bs. 0 \<le> b \<and> b < 256)"
proof (induction ps arbitrary: bs)
  case Nil
  then show ?case by simp
next
  case (Cons p ps)
  then obtain b bs' where "parse_octet p = Inr b" "parse_octets ps = Inr bs'" "bs = b # bs'"
    by (auto split: sum.splits)
  with Cons.IH [of bs'] parse_octet_range [of p b] show ?case by simp
qed

lemma ip_int_from_string_range:
  assumes "ip_int_from_string s = Inr n"
  shows "0 \<le> n \<and> n < 4294967296"
proof -
  from assms obtain bs where bs: "parse_octets (py_split CHR ''.'' s) = Inr bs"
    and l: "length (py_split CHR ''.'' s) = 4" and n: "n = from_bytes_big bs"
    by (auto simp: ip_int_from_string_def Let_def split: if_splits sum.splits)
  from parse_octets_range [OF bs] l have "length bs = 4" and r: "\<forall>b \<in> set bs. 0 \<le> b \<and> b < 256"
    by simp_all
  then obtain a b c d where "bs = [a, b, c, d]"
    by (auto simp: length_Suc_conv numeral_eq_Suc)
  with r n show ?thesis by simp
qed

lemma py_strip_id: "\<forall>c \<in> set s. \<not> py_isspace c \<Longrightarrow> py_strip s = s"
proof -
  assume a: "\<forall>c \<in> set s. \<not> py_isspace c"
  have "dropWhile py_isspace xs = xs" if "\<forall>c \<in> set xs. \<not> py_isspace c" for xs
    using that by (cases xs) auto
  from this [of s] this [of "rev s"] a show ?thesis
    by (simp add: py_strip_def)
qed

lemma startswith_char_mem: "startswith s [c] \<Longrightarrow> c \<in> set s"
  by (cases s) (auto simp: startswith_def)

lemma contains_subset: "contains s p \<Longrightarrow> set p \<subseteq> set s"
proof (induction s)
  case Nil
  then show ?case by simp
next
  case (Cons c cs)
  show ?case
  proof (cases "startswith (c # cs) p")
    case True
    then have "p = take (length p) (c # cs)" by (simp add: startswith_def)
    then have "set p \<subseteq> set (c # cs)" by (metis set_take_subset)
    then show ?thesis .
  next
    case False
    with Cons show ?thesis by auto
  qed
qed

lemma cut_first_absent: "\<not> contains s sep \<Longrightarrow> cut_first sep s = None"
  by (induction s) auto

lemma strip_target_id:
  assumes "CHR ''/'' \<notin> set s" and "CHR '':'' \<notin> set s"
  shows "strip_target s = Inr s"
proof -
  have "\<not> contains s ''://''"
    using contains_subset [of s "''://''"] assms by auto
  then have "after_scheme s = s"
    by (simp add: after_scheme_def cut_first_absent)
  with assms show ?thesis
    by (simp add: strip_target_eq takeWhile_absent)
qed

lemma str_ipv4_chars: "c \<in> set (str_ipv4 n) \<Longrightarrow> is_ascii_digit c \<or> c = CHR ''.''"
proof -
  have d: "list_all is_ascii_digit (str_int (k mod 256))" for k :: int
    by (rule str_int_digits) simp
  assume "c \<in> set (str_ipv4 n)"
  then show ?thesis
    using d [of "n div 16777216"] d [of "n div 65536"] d [of "n div 256"] d [of n]
    by (auto simp: str_ipv4_eq list_all_iff)
qed

lemma str_ipv4_nonempty: "str_ipv4 n \<noteq> []"
  by (simp add: str_ipv4_eq)

lemma expand_line_str_ipv4:
  assumes "0 \<le> n" and "n < 4294967296"
  shows "expand_line (str_ipv4 n) = Inr [str_ipv4 n]"
proof -
  let ?s = "str_ipv4 n"
  have ch: "c \<in> set ?s \<Longrightarrow> c \<noteq> CHR ''-'' \<and> c \<noteq> CHR ''/'' \<and> c \<noteq> CHR '':''
     \<and> c \<noteq> CHR ''#'' \<and> \<not> py_isspace c" for c
    using str_ipv4_chars [of c n] is_ascii_digit_neq [of c] by (auto simp: py_isspace_def)
  have st: "py_strip ?s = ?s" by (rule py_strip_id) (use ch in blast)
  have tg: "strip_target ?s = Inr ?s" by (rule strip_target_id) (use ch in blast)+
  have nh: "\<not> startswith ?s ''#''" using startswith_char_mem [of ?s "CHR ''#''"] ch by blast
  have nd: "\<not> contains ?s ''-''" using ch by (auto simp: contains_char)
  have "later_rules ?s = Inr [?s]"
    by (simp add: later_rules_cases ip_int_from_string_str_ipv4 [OF assms])
  with st tg nh nd show ?thesis
    by (simp add: expand_line_def str_ipv4_nonempty)
qed

subsection \<open>The expander: deduplication\<close>

text \<open>
  Claim C6: the result of the expander is the list of everything the loop emitted, with
  each target kept at the position of its first occurrence and every later occurrence
  dropped: it is \<open>first_occurrences\<close> of the emitted list, has no duplicates and holds
  the same targets. For the three lines \<^verbatim>\<open>1.1.1.1\<close>, \<^verbatim>\<open>2.2.2.2\<close>,
  \<^verbatim>\<open>1.1.1.1\<close> it is the first two.
\<close>

theorem expand_targets_first_seen:
  "(\<exists>emitted. expand_loop lines [] = Inr emitted
       \<and> expand_targets lines = Inr (first_occurrences emitted)
       \<and> distinct (first_occurrences emitted)
       \<and> set (first_occurrences emitted) = set emitted)
   \<and> expand_targets [''1.1.1.1'', ''2.2.2.2'', ''1.1.1.1''] = Inr [''1.1.1.1'', ''2.2.2.2'']"
proof
  obtain emitted where e: "expand_loop lines [] = Inr emitted"
    using expand_loop_total by blast
  then have "expand_targets lines = Inr (first_occurrences emitted)"
    by (simp add: expand_targets_def dedupe_first_occurrences)
  moreover have "distinct (first_occurrences emitted)"
    using dedupe_distinct [of emitted] by (simp only: dedupe_first_occurrences)
  moreover have "set (first_occurrences emitted) = set emitted"
    using dedupe_set [of emitted] by (simp only: dedupe_first_occurrences)
  ultimately show "\<exists>emitted. expand_loop lines [] = Inr emitted
       \<and> expand_targets lines = Inr (first_occurrences emitted)
       \<and> distinct (first_occurrences emitted)
       \<and> set (first_occurrences emitted) = set emitted"
    using e by blast
next
  show "expand_targets [''1.1.1.1'', ''2.2.2.2'', ''1.1.1.1''] = Inr [''1.1.1.1'', ''2.2.2.2'']"
    by code_simp
qed

subsection \<open>Expanding the result again\<close>

lemma range_body_Some:
  assumes "range_body l r = Inr (Some ts)"
  shows "\<exists>a e. 0 \<le> a \<and> e < 4294967296 \<and> ts = map str_ipv4 [a..e]"
proof -
  from assms obtain a where a: "ip_int_from_string l = Inr a"
    by (auto simp: range_body_def ip_address_def split: sum.splits)
  from assms a obtain x e where e: "ip_int_from_string x = Inr e" and ts: "ts = range_loop a e []"
    by (auto simp: range_body_def ip_address_def Let_def split: sum.splits if_splits)
  from ip_int_from_string_range [OF a] ip_int_from_string_range [OF e] ts show ?thesis
    by (auto simp: range_loop_eq)
qed

lemma range_rule_Some:
  assumes "range_rule s = Inr (Some ts)" and "t \<in> set ts"
  shows "\<exists>n. 0 \<le> n \<and> n < 4294967296 \<and> t = str_ipv4 n"
proof -
  from assms(1) obtain l r where "range_body l r = Inr (Some ts)"
    by (auto simp: range_rule_def split: list.splits sum.splits py_error.splits)
  then obtain a e where ae: "0 \<le> a" "e < 4294967296" "ts = map str_ipv4 [a..e]"
    using range_body_Some by blast
  with assms(2) obtain x where x: "t = str_ipv4 x" "a \<le> x" "x \<le> e" by auto
  with ae have "0 \<le> x \<and> x < 4294967296 \<and> t = str_ipv4 x" by simp
  then show ?thesis ..
qed

lemma later_rules_emits:
  assumes "later_rules s = Inr ts"
  shows "ts = [s] \<or> (\<exists>n. 0 \<le> n \<and> n < 4294967296 \<and> ts = [str_ipv4 n])"
proof (cases "ip_int_from_string s")
  case (Inl e)
  with assms show ?thesis by (simp add: later_rules_cases)
next
  case (Inr n)
  with assms ip_int_from_string_range [OF Inr] show ?thesis by (auto simp: later_rules_cases)
qed

lemma expand_line_emits:
  assumes "expand_line raw = Inr ts" and "t \<in> set ts"
  shows "(\<exists>n. 0 \<le> n \<and> n < 4294967296 \<and> t = str_ipv4 n)
         \<or> (CHR ''/'' \<notin> set t \<and> CHR '':'' \<notin> set t \<and> later_rules t = Inr [t]
             \<and> (contains t ''-'' \<longrightarrow> range_rule t = Inr None))"
proof -
  obtain s where s: "strip_target (py_strip raw) = Inr s" by (simp add: strip_target_eq)
  from assms have live: "py_strip raw \<noteq> []" "\<not> startswith (py_strip raw) ''#''"
    by (auto simp: expand_line_def Let_def split: if_splits)
  show ?thesis
  proof (cases "contains s ''-'' \<and> (\<exists>rs. range_rule s = Inr (Some rs))")
    case True
    then obtain rs where rs: "range_rule s = Inr (Some rs)" by blast
    with True s live assms(1) have "ts = rs" by (simp add: expand_line_def)
    with rs assms(2) range_rule_Some show ?thesis by blast
  next
    case False
    then have fall: "contains s ''-'' \<longrightarrow> range_rule s = Inr None"
      using range_rule_total [of s] by (cases "range_rule s") auto
    with s live assms(1) have lr: "later_rules s = Inr ts"
      by (auto simp: expand_line_def Let_def split: if_splits)
    from later_rules_emits [OF lr] show ?thesis
    proof
      assume "ts = [s]"
      with assms(2) lr fall strip_target_no_slash [OF s] strip_target_no_colon [OF s]
      show ?thesis by simp
    next
      assume "\<exists>n. 0 \<le> n \<and> n < 4294967296 \<and> ts = [str_ipv4 n]"
      with assms(2) show ?thesis by auto
    qed
  qed
qed

lemma expand_line_host_fixed:
  assumes "CHR ''/'' \<notin> set t" and "CHR '':'' \<notin> set t" and "later_rules t = Inr [t]"
    and "contains t ''-'' \<longrightarrow> range_rule t = Inr None"
    and "t \<noteq> []" and "\<not> startswith t ''#''" and "py_strip t = t"
  shows "expand_line t = Inr [t]"
  using assms by (simp add: expand_line_def strip_target_id)

lemma expand_loop_fixed:
  "\<forall>t \<in> set ts. expand_line t = Inr [t] \<Longrightarrow> expand_loop ts out = Inr (out @ ts)"
  by (induction ts arbitrary: out) simp_all

lemma expand_loop_emits:
  "expand_loop lines out = Inr em \<Longrightarrow> t \<in> set em \<Longrightarrow>
     t \<in> set out \<or> (\<exists>raw ts. expand_line raw = Inr ts \<and> t \<in> set ts)"
proof (induction lines arbitrary: out)
  case Nil
  then show ?case by simp
next
  case (Cons raw lines)
  from Cons.prems(1) obtain ts where ts: "expand_line raw = Inr ts"
    and rest: "expand_loop lines (out @ ts) = Inr em"
    by (auto split: sum.splits)
  from Cons.IH [OF rest Cons.prems(2)] ts show ?case by auto
qed

text \<open>
  Claim C4, as stated: for every input, expanding the result once more gives the same set
  of targets. It does not hold: the line \<^verbatim>\<open>http://#tag\<close> is no comment and leaves
  the target \<^verbatim>\<open>#tag\<close> once the scheme is cut, and on the second pass that target is
  a comment line and is skipped.
\<close>

theorem expand_targets_not_idempotent:
  "expand_targets [''http://#tag''] = Inr [''#tag''] \<and> expand_targets [''#tag''] = Inr []"
  by code_simp

text \<open>
  Claim C4, amended: when no target of the result is empty, starts with \<^verbatim>\<open>#\<close>, or
  begins or ends with white space, expanding the result once more gives the same list, and
  so the same set.
\<close>

theorem expand_targets_idempotent:
  assumes "expand_targets lines = Inr targets"
    and "\<forall>t \<in> set targets. t \<noteq> [] \<and> \<not> startswith t ''#'' \<and> py_strip t = t"
  shows "expand_targets targets = Inr targets"
proof -
  from assms(1) obtain em where em: "expand_loop lines [] = Inr em"
    and tg: "targets = dedupe_preserve_order em"
    by (auto simp: expand_targets_def split: sum.splits)
  have fixed: "expand_line t = Inr [t]" if t: "t \<in> set targets" for t
  proof -
    from t tg have "t \<in> set em" by (simp add: dedupe_set)
    with em expand_loop_emits [of lines "[]" em t] obtain raw ts
      where "expand_line raw = Inr ts" "t \<in> set ts" by auto
    from expand_line_emits [OF this] show ?thesis
    proof
      assume "\<exists>n. 0 \<le> n \<and> n < 4294967296 \<and> t = str_ipv4 n"
      then show ?thesis using expand_line_str_ipv4 by blast
    next
      assume "CHR ''/'' \<notin> set t \<and> CHR '':'' \<notin> set t \<and> later_rules t = Inr [t]
             \<and> (contains t ''-'' \<longrightarrow> range_rule t = Inr None)"
      with assms(2) t show ?thesis by (intro expand_line_host_fixed) auto
    qed
  qed
  then have "expand_loop targets [] = Inr targets"
    using expand_loop_fixed [of targets "[]"] by simp
  moreover have "dedupe_preserve_order targets = targets"
    unfolding tg by (rule dedupe_distinct_id) (rule dedupe_distinct)
  ultimately show ?thesis
    by (simp add: expand_targets_def)
qed

theorem expand_targets_idempotent_witness:
  "expand_targets [''10.0.0.9-10'', ''https://example.com:8443/path'', ''10.0.0.10'']
     = Inr [''10.0.0.9'', ''10.0.0.10'', ''example.com'']
   \<and> expand_targets [''10.0.0.9'', ''10.0.0.10'', ''example.com'']
     = Inr [''10.0.0.9'', ''10.0.0.10'', ''example.com'']"
proof -
  have e: "expand_targets [''10.0.0.9-10'', ''https://example.com:8443/path'', ''10.0.0.10'']
     = Inr [''10.0.0.9'', ''10.0.0.10'', ''example.com'']"
    by code_simp
  have h: "\<forall>t \<in> set [''10.0.0.9'', ''10.0.0.10'', ''example.com''].
      t \<noteq> [] \<and> \<not> startswith t ''#'' \<and> py_strip t = t"
    by code_simp
  from expand_targets_idempotent [OF e h] e show ?thesis by simp
qed

subsection \<open>Ranges and network blocks\<close>

lemma str_ipv4_inj:
  assumes "0 \<le> m" "m < 4294967296" "0 \<le> n" "n < 4294967296" "str_ipv4 m = str_ipv4 n"
  shows "m = n"
proof -
  have "Inr m = ip_int_from_string (str_ipv4 m)"
    using assms(1,2) by (simp add: ip_int_from_string_str_ipv4)
  also have "\<dots> = Inr n"
    using assms(3,4,5) by (simp add: ip_int_from_string_str_ipv4)
  finally show ?thesis by simp
qed

lemma distinct_str_ipv4_upto:
  assumes "0 \<le> a" and "e < 4294967296"
  shows "distinct (map str_ipv4 [a..e])"
proof -
  have "inj_on str_ipv4 (set [a..e])"
    by (rule inj_onI) (use assms in \<open>auto intro: str_ipv4_inj\<close>)
  then show ?thesis by (simp add: distinct_map)
qed

lemma cut_first_append: "c \<notin> set l \<Longrightarrow> cut_first [c] (l @ c # r) = Some (l, r)"
  by (induction l) auto

lemma split_once_append: "c \<notin> set l \<Longrightarrow> split_once [c] (l @ c # r) = [l, r]"
  by (simp add: split_once_def cut_first_append)

lemma parse_octet_chars: "parse_octet p = Inr b \<Longrightarrow> p \<noteq> [] \<and> list_all is_ascii_digit p"
  by (auto simp: parse_octet_def split: if_splits)

lemma first_three_bytes:
  fixes a :: int
  assumes "0 \<le> a" and "a < 4294967296"
  shows "256 * (256 * (a div 16777216 mod 256) + a div 65536 mod 256) + a div 256 mod 256
           = a div 256"
proof -
  have d2: "a div 65536 = a div 256 div 256" and d3: "a div 16777216 = a div 256 div 256 div 256"
    by (simp_all add: zdiv_zmult2_eq)
  from assms have "n div 256 div 256 div 256 < 256" "0 \<le> n div 256 div 256 div 256"
    if "n = a" for n using that by simp_all
  then have m: "a div 256 div 256 div 256 mod 256 = a div 256 div 256 div 256"
    by simp
  show ?thesis
    by (simp only: d2 d3 m mult_div_mod_eq)
qed

lemma short_right_bound:
  assumes a: "0 \<le> a" "a < 4294967296" and e: "parse_octet right = Inr e"
  shows "ip_address (py_join ''.'' (take 3 (py_split CHR ''.'' (str_ipv4 a)) @ [right]))
           = Inr (a div 256 * 256 + e)"
proof -
  define b0 where "b0 = a div 16777216 mod 256"
  define b1 where "b1 = a div 65536 mod 256"
  define b2 where "b2 = a div 256 mod 256"
  have r: "0 \<le> b0 \<and> b0 < 256" "0 \<le> b1 \<and> b1 < 256" "0 \<le> b2 \<and> b2 < 256"
    by (simp_all add: b0_def b1_def b2_def)
  have nd: "CHR ''.'' \<notin> set (str_int b0)" "CHR ''.'' \<notin> set (str_int b1)"
    "CHR ''.'' \<notin> set (str_int b2)"
    using r by (simp_all add: digits_no_dot str_int_digits)
  have ndr: "CHR ''.'' \<notin> set right"
    using parse_octet_chars [OF e] by (simp add: digits_no_dot)
  have "py_split CHR ''.'' (str_ipv4 a) = [str_int b0, str_int b1, str_int b2, str_int (a mod 256)]"
    by (simp add: py_split_str_ipv4 to_bytes4_def b0_def b1_def b2_def)
  then have j: "py_join ''.'' (take 3 (py_split CHR ''.'' (str_ipv4 a)) @ [right]) =
      str_int b0 @ CHR ''.'' # str_int b1 @ CHR ''.'' # str_int b2 @ CHR ''.'' # right"
    by simp
  have sp: "py_split CHR ''.'' (str_int b0 @ CHR ''.'' # str_int b1 @ CHR ''.'' # str_int b2 @ CHR ''.'' # right)
      = [str_int b0, str_int b1, str_int b2, right]"
    by (simp add: py_split_append nd ndr py_split_absent)
  have po: "parse_octets [str_int b0, str_int b1, str_int b2, right] = Inr [b0, b1, b2, e]"
    using e r by (simp add: parse_octet_str_int)
  have "256 * (256 * b0 + b1) + b2 = a div 256"
    unfolding b0_def b1_def b2_def by (rule first_three_bytes [OF a])
  then have v: "from_bytes_big [b0, b1, b2, e] = a div 256 * 256 + e"
    by simp
  show ?thesis
    unfolding j ip_address_def ip_int_from_string_def Let_def sp po
    by (simp add: v del: from_bytes_big.simps)
qed

text \<open>
  Claim C7: a range whose right bound has no dot. The left bound is the address \<open>a\<close> in
  its printed form and the right bound is an octet \<open>e\<close>; the right address is then the
  first three octets of \<open>a\<close> followed by \<open>e\<close>, that is \<open>a div 256 * 256 + e\<close>, and when
  \<open>a\<close> is not above it the expander emits every address from \<open>a\<close> to it, both included,
  in increasing order. \<^verbatim>\<open>10.0.0.5-10\<close> gives the six addresses from
  \<^verbatim>\<open>10.0.0.5\<close> to \<^verbatim>\<open>10.0.0.10\<close>.
\<close>

theorem range_short_right_bound:
  assumes "0 \<le> a" and "a < 4294967296" and "parse_octet right = Inr e"
    and "a \<le> a div 256 * 256 + e"
  shows "expand_targets [str_ipv4 a @ ''-'' @ right] =
           Inr (map str_ipv4 [a .. a div 256 * 256 + e])
         \<and> expand_targets [''10.0.0.5-10''] =
           Inr [''10.0.0.5'', ''10.0.0.6'', ''10.0.0.7'', ''10.0.0.8'', ''10.0.0.9'', ''10.0.0.10'']"
proof
  define s where "s = str_ipv4 a @ ''-'' @ right"
  define last where "last = a div 256 * 256 + e"
  from assms(3) have rd: "list_all is_ascii_digit right"
    using parse_octet_chars by blast
  have ch: "c \<noteq> CHR ''/'' \<and> c \<noteq> CHR '':'' \<and> c \<noteq> CHR ''#'' \<and> \<not> py_isspace c"
    if "c \<in> set s" for c
  proof (cases "c = CHR ''-''")
    case True
    then show ?thesis by (simp add: py_isspace_def)
  next
    case False
    with that have "c \<in> set (str_ipv4 a) \<or> c \<in> set right" by (auto simp: s_def)
    then have "is_ascii_digit c \<or> c = CHR ''.''"
      using str_ipv4_chars [of c a] rd by (auto simp: list_all_iff)
    then show ?thesis
      using is_ascii_digit_neq [of c] by (auto simp: py_isspace_def)
  qed
  have nl: "CHR ''-'' \<notin> set (str_ipv4 a)"
    using str_ipv4_chars [of "CHR ''-''" a] is_ascii_digit_neq [of "CHR ''-''"] by auto
  have st: "py_strip s = s" by (rule py_strip_id) (use ch in blast)
  have tg: "strip_target s = Inr s" by (rule strip_target_id) (use ch in blast)+
  have nh: "\<not> startswith s ''#''" using startswith_char_mem [of s "CHR ''#''"] ch by blast
  have ne: "s \<noteq> []" by (simp add: s_def)
  have dash: "contains s ''-''" by (simp add: contains_char s_def)
  have sp: "split_once ''-'' s = [str_ipv4 a, right]"
    unfolding s_def using nl split_once_append [of "CHR ''-''" "str_ipv4 a" right] by simp
  have nd: "\<not> contains right ''.''"
    using rd by (simp add: contains_char digits_no_dot)
  have l4: "length (py_split CHR ''.'' (str_ipv4 a)) = 4"
    by (simp add: py_split_str_ipv4 to_bytes4_def)
  have le: "a \<le> last" using assms(4) by (simp add: last_def)
  have "range_body (str_ipv4 a) right = Inr (Some (range_loop a last []))"
    unfolding range_body_def ip_address_def Let_def
      ip_int_from_string_str_ipv4 [OF assms(1,2)]
      short_right_bound [OF assms(1,2,3), unfolded ip_address_def, folded last_def]
    using nd l4 le by simp
  then have "range_rule s = Inr (Some (map str_ipv4 [a..last]))"
    by (simp add: range_rule_def sp range_loop_eq)
  with st tg nh ne dash have el: "expand_line s = Inr (map str_ipv4 [a..last])"
    by (simp add: expand_line_def)
  from assms(2) have "a div 256 \<le> 4294967295 div 256"
    by (intro zdiv_mono1) simp_all
  then have "a div 256 * 256 \<le> 4294967040" by simp
  with parse_octet_range [OF assms(3)] have "last < 4294967296"
    by (simp add: last_def)
  then have "distinct (map str_ipv4 [a..last])"
    using assms(1) by (intro distinct_str_ipv4_upto)
  with el have "expand_targets [s] = Inr (map str_ipv4 [a..last])"
    by (simp add: expand_targets_def dedupe_distinct_id)
  then show "expand_targets [str_ipv4 a @ ''-'' @ right] =
           Inr (map str_ipv4 [a .. a div 256 * 256 + e])"
    by (simp only: s_def last_def)
next
  show "expand_targets [''10.0.0.5-10''] =
           Inr [''10.0.0.5'', ''10.0.0.6'', ''10.0.0.7'', ''10.0.0.8'', ''10.0.0.9'', ''10.0.0.10'']"
    by code_simp
qed

theorem range_short_right_bound_witness:
  "expand_targets [str_ipv4 167772165 @ ''-'' @ ''10''] = Inr (map str_ipv4 [167772165 .. 167772170])
   \<and> str_ipv4 167772165 = ''10.0.0.5'' \<and> str_ipv4 167772170 = ''10.0.0.10''"
proof -
  have p: "parse_octet ''10'' = Inr 10" by code_simp
  have le: "(167772165 :: int) \<le> 167772165 div 256 * 256 + 10" by simp
  have eq: "(167772165 :: int) div 256 * 256 + 10 = 167772170" by simp
  have s: "str_ipv4 167772165 = ''10.0.0.5'' \<and> str_ipv4 167772170 = ''10.0.0.10''" by code_simp
  from range_short_right_bound [of 167772165 "''10''" 10, OF _ _ p le] eq s show ?thesis
    by simp
qed

text \<open>
  Claim C8 says that \<^verbatim>\<open>10.0.0.0/30\<close> expands to the two host addresses of the
  block. The expander cuts the text at the first \<^verbatim>\<open>/\<close> before any rule looks at
  it, so the network rule is handed \<^verbatim>\<open>10.0.0.0\<close>, a block of one address, and
  the result is that address.
\<close>

theorem cidr_text_is_cut:
  "expand_targets [''10.0.0.0/30''] = Inr [''10.0.0.0'']"
  by code_simp

subsection \<open>The expander: no exception, nothing dropped\<close>

text \<open>A text with a hyphen is never an address, so a range that falls through ends as a host name.\<close>

lemma py_split_nonempty: "py_split c s \<noteq> []"
  by (induction s) (auto split: list.splits)

lemma py_split_chars: "x \<in> set s \<Longrightarrow> x \<noteq> c \<Longrightarrow> \<exists>p \<in> set (py_split c s). x \<in> set p"
proof (induction s)
  case Nil
  then show ?case by simp
next
  case (Cons y ys)
  obtain w ws where w: "py_split c ys = w # ws"
    using py_split_nonempty [of c ys] by (cases "py_split c ys") auto
  show ?case
  proof (cases "y = c")
    case True
    with Cons show ?thesis by auto
  next
    case False
    show ?thesis
    proof (cases "x = y")
      case True
      with False w show ?thesis by simp
    next
      case ne: False
      with Cons have "\<exists>p \<in> set (w # ws). x \<in> set p" by (simp add: w)
      with False w show ?thesis by auto
    qed
  qed
qed

lemma parse_octets_digits:
  "parse_octets ps = Inr bs \<Longrightarrow> p \<in> set ps \<Longrightarrow> list_all is_ascii_digit p"
proof (induction ps arbitrary: bs)
  case Nil
  then show ?case by simp
next
  case (Cons q qs)
  then obtain b bs' where q: "parse_octet q = Inr b" and qs: "parse_octets qs = Inr bs'"
    by (auto split: sum.splits)
  from Cons.prems(2) have "p = q \<or> p \<in> set qs" by simp
  then show ?case
  proof
    assume "p = q"
    with parse_octet_chars [OF q] show ?thesis by simp
  next
    assume "p \<in> set qs"
    with Cons.IH [OF qs] show ?thesis by simp
  qed
qed

lemma ip_int_from_string_chars:
  assumes "ip_int_from_string s = Inr n" and "x \<in> set s"
  shows "is_ascii_digit x \<or> x = CHR ''.''"
proof (cases "x = CHR ''.''")
  case True
  then show ?thesis by simp
next
  case False
  from assms(1) obtain bs where bs: "parse_octets (py_split CHR ''.'' s) = Inr bs"
    by (auto simp: ip_int_from_string_def Let_def split: if_splits sum.splits)
  from py_split_chars [OF assms(2) False] obtain p where
    p: "p \<in> set (py_split CHR ''.'' s)" and x: "x \<in> set p" by blast
  from parse_octets_digits [OF bs p] x show ?thesis by (simp add: list_all_iff)
qed

lemma dash_no_address: "contains s ''-'' \<Longrightarrow> ip_int_from_string s = Inl ValueError"
proof (cases "ip_int_from_string s")
  case (Inl e)
  then show ?thesis by (simp add: ip_int_from_string_error)
next
  case (Inr n)
  assume "contains s ''-''"
  then have "CHR ''-'' \<in> set s" by (simp add: contains_char)
  from ip_int_from_string_chars [OF Inr this] is_ascii_digit_neq [of "CHR ''-''"]
  show ?thesis by auto
qed

lemma expand_loop_acc: "expand_loop lines acc = Inr em \<Longrightarrow> set acc \<subseteq> set em"
proof (induction lines arbitrary: acc)
  case Nil
  then show ?case by simp
next
  case (Cons raw lines)
  from Cons.prems obtain ts where "expand_loop lines (acc @ ts) = Inr em"
    by (auto split: sum.splits)
  from Cons.IH [OF this] show ?case by simp
qed

lemma expand_loop_contains:
  "expand_loop lines acc = Inr em \<Longrightarrow> raw \<in> set lines \<Longrightarrow> expand_line raw = Inr ts
     \<Longrightarrow> set ts \<subseteq> set em"
proof (induction lines arbitrary: acc)
  case Nil
  then show ?case by simp
next
  case (Cons r lines)
  from Cons.prems(1) obtain rs where rs: "expand_line r = Inr rs"
    and rest: "expand_loop lines (acc @ rs) = Inr em"
    by (auto split: sum.splits)
  from Cons.prems(2) have "raw = r \<or> raw \<in> set lines" by simp
  then show ?case
  proof
    assume "raw = r"
    with rs Cons.prems(3) have "ts = rs" by simp
    with expand_loop_acc [OF rest] show ?thesis by simp
  next
    assume "raw \<in> set lines"
    from Cons.IH [OF rest this Cons.prems(3)] show ?thesis .
  qed
qed

lemma expand_targets_contains:
  assumes "expand_targets lines = Inr out" and "raw \<in> set lines" and "expand_line raw = Inr ts"
  shows "set ts \<subseteq> set out"
proof -
  from assms(1) obtain em where em: "expand_loop lines [] = Inr em"
    and "out = dedupe_preserve_order em"
    by (auto simp: expand_targets_def split: sum.splits)
  with expand_loop_contains [OF em assms(2,3)] show ?thesis by (simp add: dedupe_set)
qed

text \<open>
  Claim C5: for every input the expander returns a list \<open>out\<close>, no exception leaves it,
  and every line that is not skipped (blank or a comment) leaves its targets in \<open>out\<close>.
  With \<open>s\<close> the text of the line after the scheme, path and port are cut:
  \<^item> a range whose bounds cannot be read (the body of the range rule raises) falls through,
    and \<open>s\<close> itself is in \<open>out\<close>;
  \<^item> a range that is enumerated has all its addresses in \<open>out\<close>;
  \<^item> otherwise the later rules decide: the addresses of the network are in \<open>out\<close>, or the
    single address is, or, when \<open>s\<close> is neither, \<open>s\<close> itself is in \<open>out\<close>.

  A line that matches no rule, taken alone, gives exactly the one target \<open>s\<close>; the line
  \<^verbatim>\<open>abc-def\<close> gives the one target \<^verbatim>\<open>abc-def\<close>.
\<close>

theorem expand_targets_never_raises:
  "(\<exists>out. expand_targets lines = Inr out
      \<and> (\<forall>raw \<in> set lines. \<forall>s.
            py_strip raw \<noteq> [] \<and> \<not> startswith (py_strip raw) ''#''
            \<and> strip_target (py_strip raw) = Inr s
            \<longrightarrow> (\<forall>left right e. contains s ''-'' \<and> split_once ''-'' s = [left, right]
                     \<and> range_body left right = Inl e \<longrightarrow> s \<in> set out)
              \<and> (\<forall>ts. contains s ''-'' \<and> range_rule s = Inr (Some ts) \<longrightarrow> set ts \<subseteq> set out)
              \<and> ((contains s ''-'' \<longrightarrow> range_rule s = Inr None)
                   \<longrightarrow> (\<forall>hosts. ip_network_hosts s = Inr hosts \<longrightarrow> set hosts \<subseteq> set out)
                     \<and> (\<forall>ip. ip_network_hosts s = Inl ValueError \<and> ip_address s = Inr ip
                           \<longrightarrow> str_ipv4 ip \<in> set out)
                     \<and> (ip_network_hosts s = Inl ValueError \<and> ip_address s = Inl ValueError
                           \<longrightarrow> s \<in> set out))))
   \<and> (\<forall>raw s. py_strip raw \<noteq> [] \<and> \<not> startswith (py_strip raw) ''#''
         \<and> strip_target (py_strip raw) = Inr s
         \<and> (contains s ''-'' \<longrightarrow> range_rule s = Inr None)
         \<and> ip_network_hosts s = Inl ValueError \<and> ip_address s = Inl ValueError
         \<longrightarrow> expand_targets [raw] = Inr [s])
   \<and> expand_targets [''abc-def''] = Inr [''abc-def'']"
  (is "(\<exists>out. ?E out \<and> ?T out) \<and> ?S \<and> ?X")
proof (intro conjI)
  obtain out where out: "expand_targets lines = Inr out"
    using expand_targets_total by blast
  have tie: "(\<forall>left right e. contains s ''-'' \<and> split_once ''-'' s = [left, right]
                     \<and> range_body left right = Inl e \<longrightarrow> s \<in> set out)
              \<and> (\<forall>ts. contains s ''-'' \<and> range_rule s = Inr (Some ts) \<longrightarrow> set ts \<subseteq> set out)
              \<and> ((contains s ''-'' \<longrightarrow> range_rule s = Inr None)
                   \<longrightarrow> (\<forall>hosts. ip_network_hosts s = Inr hosts \<longrightarrow> set hosts \<subseteq> set out)
                     \<and> (\<forall>ip. ip_network_hosts s = Inl ValueError \<and> ip_address s = Inr ip
                           \<longrightarrow> str_ipv4 ip \<in> set out)
                     \<and> (ip_network_hosts s = Inl ValueError \<and> ip_address s = Inl ValueError
                           \<longrightarrow> s \<in> set out))"
    if raw: "raw \<in> set lines" and live: "py_strip raw \<noteq> []" "\<not> startswith (py_strip raw) ''#''"
      and s: "strip_target (py_strip raw) = Inr s" for raw s
  proof -
    have sub: "set ts \<subseteq> set out" if "expand_line raw = Inr ts" for ts
      using expand_targets_contains [OF out raw that] .
    have fall: "expand_line raw = later_rules s" if "contains s ''-'' \<longrightarrow> range_rule s = Inr None"
      using that live s by (auto simp: expand_line_def Let_def)
    have a: "s \<in> set out"
      if "contains s ''-''" "split_once ''-'' s = [left, right]" "range_body left right = Inl e"
      for left right e
    proof -
      from that(3) have "e = ValueError" by (rule range_body_error)
      with that have "range_rule s = Inr None" by (simp add: range_rule_def)
      then have "expand_line raw = later_rules s" by (simp add: fall)
      moreover from that(1) have "later_rules s = Inr [s]"
        by (simp add: later_rules_cases dash_no_address)
      ultimately show ?thesis using sub [of "[s]"] by simp
    qed
    have b: "set ts \<subseteq> set out" if "contains s ''-''" "range_rule s = Inr (Some ts)" for ts
    proof -
      from that live s have "expand_line raw = Inr ts" by (simp add: expand_line_def)
      then show ?thesis by (rule sub)
    qed
    have c: "(\<forall>hosts. ip_network_hosts s = Inr hosts \<longrightarrow> set hosts \<subseteq> set out)
          \<and> (\<forall>ip. ip_network_hosts s = Inl ValueError \<and> ip_address s = Inr ip
                \<longrightarrow> str_ipv4 ip \<in> set out)
          \<and> (ip_network_hosts s = Inl ValueError \<and> ip_address s = Inl ValueError
                \<longrightarrow> s \<in> set out)"
      if f: "contains s ''-'' \<longrightarrow> range_rule s = Inr None"
    proof (intro conjI allI impI)
      fix hosts assume "ip_network_hosts s = Inr hosts"
      with fall [OF f] have "expand_line raw = Inr hosts" by (simp add: later_rules_def)
      then show "set hosts \<subseteq> set out" by (rule sub)
    next
      fix ip assume "ip_network_hosts s = Inl ValueError \<and> ip_address s = Inr ip"
      with fall [OF f] have "expand_line raw = Inr [str_ipv4 ip]" by (simp add: later_rules_def)
      from sub [OF this] show "str_ipv4 ip \<in> set out" by simp
    next
      assume "ip_network_hosts s = Inl ValueError \<and> ip_address s = Inl ValueError"
      with fall [OF f] have "expand_line raw = Inr [s]" by (simp add: later_rules_def)
      from sub [OF this] show "s \<in> set out" by simp
    qed
    from a b c show ?thesis by blast
  qed
  then have "?T out" by blast
  with out show "\<exists>out. ?E out \<and> ?T out" by blast
next
  show "\<forall>raw s. py_strip raw \<noteq> [] \<and> \<not> startswith (py_strip raw) ''#''
         \<and> strip_target (py_strip raw) = Inr s
         \<and> (contains s ''-'' \<longrightarrow> range_rule s = Inr None)
         \<and> ip_network_hosts s = Inl ValueError \<and> ip_address s = Inl ValueError
         \<longrightarrow> expand_targets [raw] = Inr [s]"
  proof (intro allI impI)
    fix raw s
    assume h: "py_strip raw \<noteq> [] \<and> \<not> startswith (py_strip raw) ''#''
         \<and> strip_target (py_strip raw) = Inr s
         \<and> (contains s ''-'' \<longrightarrow> range_rule s = Inr None)
         \<and> ip_network_hosts s = Inl ValueError \<and> ip_address s = Inl ValueError"
    then have "expand_line raw = later_rules s"
      by (auto simp: expand_line_def Let_def)
    moreover from h have "later_rules s = Inr [s]" by (simp add: later_rules_def)
    ultimately show "expand_targets [raw] = Inr [s]"
      by (simp add: expand_targets_def dedupe_preserve_order_def)
  qed
next
  show "expand_targets [''abc-def''] = Inr [''abc-def'']"
    by code_simp
qed

theorem expand_targets_never_raises_witness:
  "(\<exists>out. expand_targets [''10.0.0.1'', '' abc-def '', ''http://host.example:8080/x''] = Inr out
      \<and> ''abc-def'' \<in> set out \<and> ''10.0.0.1'' \<in> set out \<and> ''host.example'' \<in> set out)
   \<and> expand_targets ['' abc-def ''] = Inr [''abc-def'']"
proof -
  let ?lines = "[''10.0.0.1'', '' abc-def '', ''http://host.example:8080/x'']"
  note t = expand_targets_never_raises [of ?lines]
  then obtain out where out: "expand_targets ?lines = Inr out"
    and tie: "\<forall>raw \<in> set ?lines. \<forall>s.
            py_strip raw \<noteq> [] \<and> \<not> startswith (py_strip raw) ''#''
            \<and> strip_target (py_strip raw) = Inr s
            \<longrightarrow> (\<forall>left right e. contains s ''-'' \<and> split_once ''-'' s = [left, right]
                     \<and> range_body left right = Inl e \<longrightarrow> s \<in> set out)
              \<and> (\<forall>ts. contains s ''-'' \<and> range_rule s = Inr (Some ts) \<longrightarrow> set ts \<subseteq> set out)
              \<and> ((contains s ''-'' \<longrightarrow> range_rule s = Inr None)
                   \<longrightarrow> (\<forall>hosts. ip_network_hosts s = Inr hosts \<longrightarrow> set hosts \<subseteq> set out)
                     \<and> (\<forall>ip. ip_network_hosts s = Inl ValueError \<and> ip_address s = Inr ip
                           \<longrightarrow> str_ipv4 ip \<in> set out)
                     \<and> (ip_network_hosts s = Inl ValueError \<and> ip_address s = Inl ValueError
                           \<longrightarrow> s \<in> set out))"
    by blast
  have l1: "py_strip '' abc-def '' \<noteq> [] \<and> \<not> startswith (py_strip '' abc-def '') ''#''
        \<and> strip_target (py_strip '' abc-def '') = Inr ''abc-def''"
    by code_simp
  have r1: "contains ''abc-def'' ''-'' \<and> split_once ''-'' ''abc-def'' = [''abc'', ''def'']
        \<and> range_body ''abc'' ''def'' = Inl ValueError"
    by code_simp
  have l2: "py_strip ''10.0.0.1'' \<noteq> [] \<and> \<not> startswith (py_strip ''10.0.0.1'') ''#''
        \<and> strip_target (py_strip ''10.0.0.1'') = Inr ''10.0.0.1''"
    by code_simp
  have r2: "\<not> contains ''10.0.0.1'' ''-'' \<and> ip_network_hosts ''10.0.0.1'' = Inr [''10.0.0.1'']"
    by code_simp
  have l3: "py_strip ''http://host.example:8080/x'' \<noteq> []
        \<and> \<not> startswith (py_strip ''http://host.example:8080/x'') ''#''
        \<and> strip_target (py_strip ''http://host.example:8080/x'') = Inr ''host.example''"
    by code_simp
  have r3: "\<not> contains ''host.example'' ''-'' \<and> ip_network_hosts ''host.example'' = Inl ValueError
        \<and> ip_address ''host.example'' = Inl ValueError"
    by code_simp
  have i1: "'' abc-def '' \<in> set ?lines" and i2: "''10.0.0.1'' \<in> set ?lines"
    and i3: "''http://host.example:8080/x'' \<in> set ?lines"
    by simp_all
  from bspec [OF tie i1, THEN spec, of "''abc-def''"] l1 r1
  have m1: "''abc-def'' \<in> set out" by blast
  from bspec [OF tie i2, THEN spec, of "''10.0.0.1''"] l2 r2
  have "set [''10.0.0.1''] \<subseteq> set out" by blast
  then have m2: "''10.0.0.1'' \<in> set out" by simp
  from bspec [OF tie i3, THEN spec, of "''host.example''"] l3 r3
  have m3: "''host.example'' \<in> set out" by blast
  have l4: "(contains ''abc-def'' ''-'' \<longrightarrow> range_rule ''abc-def'' = Inr None)
        \<and> ip_network_hosts ''abc-def'' = Inl ValueError \<and> ip_address ''abc-def'' = Inl ValueError"
    by code_simp
  from t l1 l4 have "expand_targets ['' abc-def ''] = Inr [''abc-def'']" by blast
  with out m1 m2 m3 show ?thesis by blast
qed

subsection \<open>The liveness prober\<close>

text \<open>
  Claim C3, as stated: whenever the sweep fails, a non-zero exit status included, the prober
  falls back to connecting to port 80. It does not hold. With a shell that returns status 1
  (the sweep ran and a host did not answer it) and prints nothing, and a host that accepts
  the connection, the result is empty, where the claim gives that host.
\<close>

theorem fping_no_fallback_on_exit_status:
  "fping_alive run_exit_1 connect_all [''10.0.0.1''] = []"
  by (simp add: fping_alive_def run_exit_1_def py_splitlines.simps dedupe_preserve_order_def)

text \<open>
  Claim C3, amended: for a non-empty host list,
  \<^item> when the call that starts the sweep raises, or the output of the sweep cannot be
    decoded, the result is that of the fallback: the hosts whose connection to port 80 was
    established, each once, in the order of their first occurrence; as a set, exactly the
    hosts \<open>hosts ! i\<close> whose \<open>i\<close>-th attempt succeeded;
  \<^item> when the process completes with an exit status other than 126 and 127, zero or not,
    there is no fallback: the result is the non-empty stripped lines of its standard
    output, each once, in the order of their first occurrence, whatever the connections
    would give.

  The statuses 126 and 127 are those by which the shell reports that the sweep utility
  could not be run; the amended claim says nothing about them.
\<close>

theorem fping_fallback:
  assumes "hosts \<noteq> []"
  shows "(run hosts = RunRaised \<or> run hosts = Completed returncode None
            \<longrightarrow> fping_alive run connect hosts =
                  first_occurrences
                    (map snd (filter (\<lambda>(i, h). connect i h) (zip [0..<length hosts] hosts)))
                \<and> set (fping_alive run connect hosts) =
                  {hosts ! i | i. i < length hosts \<and> connect i (hosts ! i)})
         \<and> (\<forall>stdout. run hosts = Completed returncode (Some stdout)
                \<and> returncode \<noteq> 126 \<and> returncode \<noteq> 127
            \<longrightarrow> fping_alive run connect hosts =
                  first_occurrences
                    (map py_strip (filter (\<lambda>x. py_strip x \<noteq> []) (py_splitlines stdout))))"
proof (intro conjI impI allI)
  assume r: "run hosts = RunRaised \<or> run hosts = Completed returncode None"
  with assms have a: "fping_alive run connect hosts =
      dedupe_preserve_order (connect_loop connect 0 hosts [])"
    by (auto simp: fping_alive_def)
  have "connect_loop connect 0 hosts [] =
      map snd (filter (\<lambda>(i, h). connect i h) (zip [0..<length hosts] hosts))"
    by (simp add: connect_loop_eq)
  then show "fping_alive run connect hosts =
      first_occurrences
        (map snd (filter (\<lambda>(i, h). connect i h) (zip [0..<length hosts] hosts)))"
    by (simp only: a dedupe_first_occurrences)
  show "set (fping_alive run connect hosts) =
      {hosts ! i | i. i < length hosts \<and> connect i (hosts ! i)}"
    by (simp only: a dedupe_set connect_loop_set)
next
  fix stdout
  assume "run hosts = Completed returncode (Some stdout)
      \<and> returncode \<noteq> 126 \<and> returncode \<noteq> 127"
  with assms show "fping_alive run connect hosts =
      first_occurrences
        (map py_strip (filter (\<lambda>x. py_strip x \<noteq> []) (py_splitlines stdout)))"
    by (simp add: fping_alive_def dedupe_first_occurrences)
qed

theorem fping_fallback_witness:
  "fping_alive run_raises connect_not_b [''a'', ''b'', ''c'', ''a''] = [''a'', ''c'']
   \<and> set (fping_alive run_raises connect_not_b [''a'', ''b'', ''c'', ''a'']) = {''a'', ''c''}
   \<and> fping_alive run_exit_1_two_alive connect_not_b [''10.0.0.1'', ''10.0.0.2'', ''10.0.0.3'']
       = [''10.0.0.2'', ''10.0.0.3'']"
proof -
  have ne: "[''a'', ''b'', ''c'', ''a''] \<noteq> ([] :: string list)" by simp
  have r: "run_raises [''a'', ''b'', ''c'', ''a''] = RunRaised \<or>
           run_raises [''a'', ''b'', ''c'', ''a''] = Completed 0 None"
    by (simp add: run_raises_def)
  have v: "first_occurrences (map snd (filter (\<lambda>(i, h). connect_not_b i h)
        (zip [0..<length [''a'', ''b'', ''c'', ''a'']] [''a'', ''b'', ''c'', ''a'']))) = [''a'', ''c'']"
    by code_simp
  note w = fping_fallback [of "[''a'', ''b'', ''c'', ''a'']" run_raises 0 connect_not_b, OF ne]
  from w r have e: "fping_alive run_raises connect_not_b [''a'', ''b'', ''c'', ''a''] =
      first_occurrences (map snd (filter (\<lambda>(i, h). connect_not_b i h)
        (zip [0..<length [''a'', ''b'', ''c'', ''a'']] [''a'', ''b'', ''c'', ''a''])))"
    by blast
  have p1: "fping_alive run_raises connect_not_b [''a'', ''b'', ''c'', ''a''] = [''a'', ''c'']"
    by (simp only: e v)
  have ne2: "[''10.0.0.1'', ''10.0.0.2'', ''10.0.0.3''] \<noteq> ([] :: string list)" by simp
  let ?out = "''10.0.0.2'' @ [CHR 0x0A] @ '' 10.0.0.3 '' @ [CHR 0x0A, CHR 0x0A] @ ''10.0.0.2'' @ [CHR 0x0A]"
  have r2: "run_exit_1_two_alive [''10.0.0.1'', ''10.0.0.2'', ''10.0.0.3''] = Completed 1 (Some ?out)
      \<and> (1 :: int) \<noteq> 126 \<and> (1 :: int) \<noteq> 127"
    by (simp add: run_exit_1_two_alive_def)
  have v2: "first_occurrences (map py_strip (filter (\<lambda>x. py_strip x \<noteq> []) (py_splitlines ?out)))
      = [''10.0.0.2'', ''10.0.0.3'']"
    by code_simp
  note w2 = fping_fallback [of "[''10.0.0.1'', ''10.0.0.2'', ''10.0.0.3'']" run_exit_1_two_alive 1
      connect_not_b, OF ne2]
  from w2 r2 have "fping_alive run_exit_1_two_alive connect_not_b
      [''10.0.0.1'', ''10.0.0.2'', ''10.0.0.3''] =
      first_occurrences (map py_strip (filter (\<lambda>x. py_strip x \<noteq> []) (py_splitlines ?out)))"
    by blast
  then have p2: "fping_alive run_exit_1_two_alive connect_not_b
      [''10.0.0.1'', ''10.0.0.2'', ''10.0.0.3''] = [''10.0.0.2'', ''10.0.0.3'']"
    by (simp only: v2)
  from p1 p2 show ?thesis by simp
qed

text \<open>
  Claim C10: on the fallback path every host returned is a host of the input, no host is
  returned twice, and the hosts returned stand in the order they have in the input (the
  result is a subsequence of the input).
\<close>

theorem fping_fallback_sublist:
  assumes "hosts \<noteq> []"
    and "run hosts = RunRaised \<or> run hosts = Completed returncode None"
  shows "set (fping_alive run connect hosts) \<subseteq> set hosts
         \<and> distinct (fping_alive run connect hosts)
         \<and> subseq (fping_alive run connect hosts) hosts"
proof -
  from assms have eq: "fping_alive run connect hosts =
      dedupe_preserve_order (connect_loop connect 0 hosts [])"
    by (auto simp: fping_alive_def)
  have sub: "subseq (fping_alive run connect hosts) hosts"
    unfolding eq using dedupe_subseq connect_loop_subseq by (rule subseq_order.order_trans)
  have "set (fping_alive run connect hosts) \<subseteq> set hosts"
    unfolding eq dedupe_set connect_loop_set by auto
  with sub show ?thesis
    by (simp add: eq dedupe_distinct)
qed

theorem fping_fallback_sublist_witness:
  "set (fping_alive run_raises connect_not_b [''a'', ''b'', ''c'', ''a'']) \<subseteq> set [''a'', ''b'', ''c'', ''a'']
   \<and> distinct (fping_alive run_raises connect_not_b [''a'', ''b'', ''c'', ''a''])
   \<and> subseq (fping_alive run_raises connect_not_b [''a'', ''b'', ''c'', ''a'']) [''a'', ''b'', ''c'', ''a'']"
proof -
  have ne: "[''a'', ''b'', ''c'', ''a''] \<noteq> ([] :: string list)" by simp
  have r: "run_raises [''a'', ''b'', ''c'', ''a''] = RunRaised \<or>
           run_raises [''a'', ''b'', ''c'', ''a''] = Completed 0 None"
    by (simp add: run_raises_def)
  show ?thesis
    by (rule fping_fallback_sublist [of "[''a'', ''b'', ''c'', ''a'']" run_raises 0 connect_not_b, OF ne r])
qed

subsection \<open>Soft-schema completion\<close>

lemma map_of_dict_set: "map_of (dict_set d k v) = (map_of d)(k \<mapsto> v)"
  by (induction d) (auto simp: fun_eq_iff)

lemma dict_get_set: "dict_get (dict_set d k v) k' = (if k' = k then v else dict_get d k')"
  by (simp add: dict_get_def dict_get_default_def map_of_dict_set)

lemma dict_has_set: "dict_has (dict_set d k v) k' = (k' = k \<or> dict_has d k')"
  by (simp add: dict_has_def map_of_dict_set)

lemma dict_get_setdefault_other: "k' \<noteq> k \<Longrightarrow> dict_get (dict_setdefault d k v) k' = dict_get d k'"
  by (simp add: dict_setdefault_def dict_get_set)

lemma truthy_get_item: "truthy (dict_get d k) \<Longrightarrow> dict_item d k = Inr (dict_get d k)"
  by (auto simp: dict_get_def dict_get_default_def dict_item_def split: option.splits)

lemma asset_loop_result:
  "\<exists>obj'. asset_loop obj ks = Inr obj' \<and>
     (\<forall>k. k \<noteq> ''asset'' \<longrightarrow> dict_get obj' k = dict_get obj k)"
  by (induction ks) (auto simp: truthy_get_item dict_get_set)

lemma py_repr_nonempty: "py_repr v \<noteq> []"
  by (cases v) (simp_all add: str_int_nonempty repr_str_def Let_def)

lemma py_str_nonempty: "truthy v \<Longrightarrow> py_str v \<noteq> []"
  by (cases v) (simp_all add: py_str_def py_repr_nonempty del: py_repr.simps)

lemma summary_step_summary:
  "dict_get (summary_step obj) ''summary'' =
     (if truthy (dict_get obj ''summary'') then dict_get obj ''summary''
      else PStr (py_str (py_or (py_or (py_or (dict_get obj ''title'') (dict_get obj ''service''))
                                   (dict_get obj ''status'')) (PStr ''finding''))))"
  by (simp add: summary_step_def Let_def dict_get_set)

lemma summary_step_other: "k \<noteq> ''summary'' \<Longrightarrow> dict_get (summary_step obj) k = dict_get obj k"
  by (simp add: summary_step_def Let_def dict_get_set)

lemma summary_step_truthy: "truthy (dict_get (summary_step obj) ''summary'')"
proof -
  have "truthy (py_or t (PStr ''finding''))" for t
    by (simp add: py_or_def)
  then show ?thesis
    by (simp add: summary_step_summary py_str_nonempty)
qed

lemma partial_step_get:
  "dict_get (partial_step obj) k =
     (if k = ''partial''
      then PBool (\<not> truthy (dict_get obj ''asset'') \<or> \<not> truthy (dict_get obj ''summary''))
      else dict_get obj k)"
  by (simp add: partial_step_def Let_def dict_get_set)

text \<open>The pieces of a completed record, read off the definition.\<close>

lemma ensure_soft_schema_result:
  assumes "dict_item ctx ''run_id'' = Inr rid"
  shows "\<exists>obj' obj3. ensure_soft_schema obj ctx now = Inr obj'
     \<and> (\<forall>k. k \<noteq> ''asset'' \<and> k \<noteq> ''run_id'' \<and> k \<noteq> ''ts'' \<longrightarrow> dict_get obj3 k = dict_get obj k)
     \<and> dict_get obj' ''asset'' = dict_get obj3 ''asset''
     \<and> dict_get obj' ''tool'' = dict_get obj3 ''tool''
     \<and> dict_get obj' ''summary'' = dict_get (summary_step obj3) ''summary''
     \<and> dict_get obj' ''partial'' = PBool (\<not> truthy (dict_get obj3 ''asset''))"
proof -
  define obj2 where
    "obj2 = dict_setdefault (dict_setdefault obj ''run_id'' rid) ''ts'' (PStr (now @ ''Z''))"
  have o2: "dict_get obj2 k = dict_get obj k" if "k \<noteq> ''run_id''" "k \<noteq> ''ts''" for k
    using that by (simp add: obj2_def dict_get_setdefault_other)
  have "\<exists>obj3. (if \<not> truthy (dict_get obj2 ''asset'')
        then asset_loop obj2 [''url'', ''host'', ''ip'', ''domain''] else Inr obj2) = Inr obj3
      \<and> (\<forall>k. k \<noteq> ''asset'' \<longrightarrow> dict_get obj3 k = dict_get obj2 k)"
  proof (cases "truthy (dict_get obj2 ''asset'')")
    case True
    then show ?thesis by simp
  next
    case False
    then show ?thesis
      using asset_loop_result [of obj2 "[''url'', ''host'', ''ip'', ''domain'']"]
      by (simp del: asset_loop.simps)
  qed
  then obtain obj3 where o3: "(if \<not> truthy (dict_get obj2 ''asset'')
        then asset_loop obj2 [''url'', ''host'', ''ip'', ''domain''] else Inr obj2) = Inr obj3"
    and keep: "\<forall>k. k \<noteq> ''asset'' \<longrightarrow> dict_get obj3 k = dict_get obj2 k"
    by blast
  define obj4 where "obj4 = partial_step (summary_step obj3)"
  define obj' where "obj' = (if \<not> dict_has obj4 ''severity''
      then dict_set obj4 ''severity'' (PStr ''unknown'') else obj4)"
  have e: "ensure_soft_schema obj ctx now = Inr obj'"
    by (simp only: ensure_soft_schema_def Let_def assms sum.case obj2_def [symmetric] o3
        obj4_def [symmetric] obj'_def [symmetric])
  have g: "dict_get obj' k = dict_get obj4 k" if "k \<noteq> ''severity''" for k
    using that by (simp add: obj'_def dict_get_set)
  have "dict_get obj' ''asset'' = dict_get obj3 ''asset''"
    by (simp add: g obj4_def partial_step_get summary_step_other)
  moreover have "dict_get obj' ''tool'' = dict_get obj3 ''tool''"
    by (simp add: g obj4_def partial_step_get summary_step_other)
  moreover have "dict_get obj' ''summary'' = dict_get (summary_step obj3) ''summary''"
    by (simp add: g obj4_def partial_step_get)
  moreover have "dict_get obj' ''partial'' = PBool (\<not> truthy (dict_get obj3 ''asset''))"
    by (simp add: g obj4_def partial_step_get summary_step_other summary_step_truthy)
  moreover have "\<forall>k. k \<noteq> ''asset'' \<and> k \<noteq> ''run_id'' \<and> k \<noteq> ''ts'' \<longrightarrow> dict_get obj3 k = dict_get obj k"
    using keep o2 by simp
  ultimately show ?thesis using e by blast
qed

lemma emit_cases:
  assumes "emit obj ctx now out = Inr out'"
  shows "out' = out \<or> (\<exists>f. out' = out @ [f] \<and> ensure_soft_schema obj ctx now = Inr f
            \<and> truthy (dict_get f ''tool'') \<and> truthy (dict_get f ''asset'')
            \<and> truthy (dict_get f ''summary''))"
  using assms by (auto simp: emit_def split: sum.splits if_splits)

lemma emitted_partial_false:
  assumes "ensure_soft_schema obj ctx now = Inr f" and "truthy (dict_get f ''asset'')"
  shows "dict_get f ''partial'' = PBool False"
proof -
  have "\<exists>rid. dict_item ctx ''run_id'' = Inr rid"
  proof (cases "dict_item ctx ''run_id''")
    case (Inl e)
    then have "ensure_soft_schema obj ctx now = Inl e"
      by (simp add: ensure_soft_schema_def)
    with assms(1) show ?thesis by simp
  next
    case (Inr rid)
    then show ?thesis by simp
  qed
  then obtain rid where rid: "dict_item ctx ''run_id'' = Inr rid" ..
  from ensure_soft_schema_result [OF rid, of obj now] obtain obj3 where
    "dict_get f ''asset'' = dict_get obj3 ''asset''"
    "dict_get f ''partial'' = PBool (\<not> truthy (dict_get obj3 ''asset''))"
    using assms(1) by auto
  with assms(2) show ?thesis by simp
qed

text \<open>An invariant of the records carried through the loops of the engine.\<close>

lemma emit_item_inv:
  assumes "emit_item E ev field_map ctx st = Inr st'"
    and "\<forall>f \<in> set (fst st). P f"
    and "\<And>obj now f. ensure_soft_schema obj ctx now = Inr f \<Longrightarrow> truthy (dict_get f ''tool'')
           \<Longrightarrow> truthy (dict_get f ''asset'') \<Longrightarrow> truthy (dict_get f ''summary'') \<Longrightarrow> P f"
  shows "\<forall>f \<in> set (fst st'). P f"
proof -
  from assms(1) obtain kvs out' where
    e: "emit (build_obj ev kvs []) ctx (utcnow E (snd st)) (fst st) = Inr out'" and "fst st' = out'"
    by (auto simp: emit_item_def split: sum.splits)
  from emit_cases [OF e] show ?thesis
  proof
    assume "out' = fst st"
    with \<open>fst st' = out'\<close> assms(2) show ?thesis by simp
  next
    assume "\<exists>f. out' = fst st @ [f] \<and>
        ensure_soft_schema (build_obj ev kvs []) ctx (utcnow E (snd st)) = Inr f \<and>
        truthy (dict_get f ''tool'') \<and> truthy (dict_get f ''asset'') \<and> truthy (dict_get f ''summary'')"
    then obtain f where f: "out' = fst st @ [f]"
      and "ensure_soft_schema (build_obj ev kvs []) ctx (utcnow E (snd st)) = Inr f"
      "truthy (dict_get f ''tool'')" "truthy (dict_get f ''asset'')" "truthy (dict_get f ''summary'')"
      by blast
    then have "P f" by (intro assms(3))
    with f \<open>fst st' = out'\<close> assms(2) show ?thesis by simp
  qed
qed

lemma ndjson_items_inv:
  assumes "ndjson_items E field_map ctx items st = Inr st'"
    and "\<forall>f \<in> set (fst st). P f"
    and "\<And>obj now f. ensure_soft_schema obj ctx now = Inr f \<Longrightarrow> truthy (dict_get f ''tool'')
           \<Longrightarrow> truthy (dict_get f ''asset'') \<Longrightarrow> truthy (dict_get f ''summary'') \<Longrightarrow> P f"
  shows "\<forall>f \<in> set (fst st'). P f"
  using assms(1,2)
proof (induction items arbitrary: st)
  case Nil
  then show ?case by simp
next
  case (Cons itm items)
  show ?case
  proof (cases "itm = PNone")
    case True
    with Cons.prems(1) have "ndjson_items E field_map ctx items st = Inr st'" by simp
    then show ?thesis using Cons.prems(2) by (rule Cons.IH)
  next
    case False
    with Cons.prems(1) obtain st1 where
      s1: "emit_item E (\<lambda>expr. eval_jmes E expr itm ctx) field_map ctx st = Inr st1"
      and r: "ndjson_items E field_map ctx items st1 = Inr st'"
      by (auto split: sum.splits)
    have "\<forall>f \<in> set (fst st1). P f"
      by (rule emit_item_inv [OF s1 Cons.prems(2)]) (rule assms(3))
    then show ?thesis by (rule Cons.IH [OF r])
  qed
qed

lemma ndjson_lines_inv:
  assumes "ndjson_lines E rec_expr field_map ctx lines st = Inr st'"
    and "\<forall>f \<in> set (fst st). P f"
    and "\<And>obj now f. ensure_soft_schema obj ctx now = Inr f \<Longrightarrow> truthy (dict_get f ''tool'')
           \<Longrightarrow> truthy (dict_get f ''asset'') \<Longrightarrow> truthy (dict_get f ''summary'') \<Longrightarrow> P f"
  shows "\<forall>f \<in> set (fst st'). P f"
  using assms(1,2)
proof (induction lines arbitrary: st)
  case Nil
  then show ?case by simp
next
  case (Cons line rest)
  show ?case
  proof (cases "py_strip line = [] \<or> json_loads E (py_strip line) = None")
    case True
    with Cons.prems(1) have "ndjson_lines E rec_expr field_map ctx rest st = Inr st'"
      by (auto split: option.splits)
    then show ?thesis using Cons.prems(2) by (rule Cons.IH)
  next
    case False
    then obtain raw where raw: "json_loads E (py_strip line) = Some raw" by auto
    with False Cons.prems(1) obtain base st1 where
      "jmespath_search E rec_expr raw = Inr base"
      and s1: "ndjson_items E field_map ctx (case base of PList xs \<Rightarrow> xs | _ \<Rightarrow> [base]) st = Inr st1"
      and r: "ndjson_lines E rec_expr field_map ctx rest st1 = Inr st'"
      by (auto split: sum.splits)
    have "\<forall>f \<in> set (fst st1). P f"
      by (rule ndjson_items_inv [OF s1 Cons.prems(2)]) (rule assms(3))
    then show ?thesis by (rule Cons.IH [OF r])
  qed
qed

lemma ndjson_files_inv:
  assumes "ndjson_files E rec_expr field_map ctx paths st = Inr st'"
    and "\<forall>f \<in> set (fst st). P f"
    and "\<And>obj now f. ensure_soft_schema obj ctx now = Inr f \<Longrightarrow> truthy (dict_get f ''tool'')
           \<Longrightarrow> truthy (dict_get f ''asset'') \<Longrightarrow> truthy (dict_get f ''summary'') \<Longrightarrow> P f"
  shows "\<forall>f \<in> set (fst st'). P f"
  using assms(1,2)
proof (induction paths arbitrary: st)
  case Nil
  then show ?case by simp
next
  case (Cons path paths)
  show ?case
  proof (cases "open_lines E path")
    case None
    with Cons.prems(1) have "ndjson_files E rec_expr field_map ctx paths st = Inr st'" by simp
    then show ?thesis using Cons.prems(2) by (rule Cons.IH)
  next
    case (Some lines)
    with Cons.prems(1) obtain st1 where
      s1: "ndjson_lines E rec_expr field_map ctx lines st = Inr st1"
      and r: "ndjson_files E rec_expr field_map ctx paths st1 = Inr st'"
      by (auto split: sum.splits)
    have "\<forall>f \<in> set (fst st1). P f"
      by (rule ndjson_lines_inv [OF s1 Cons.prems(2)]) (rule assms(3))
    then show ?thesis by (rule Cons.IH [OF r])
  qed
qed

lemma xml_elems_inv:
  assumes "xml_elems E field_map ctx elems st = Inr st'"
    and "\<forall>f \<in> set (fst st). P f"
    and "\<And>obj now f. ensure_soft_schema obj ctx now = Inr f \<Longrightarrow> truthy (dict_get f ''tool'')
           \<Longrightarrow> truthy (dict_get f ''asset'') \<Longrightarrow> truthy (dict_get f ''summary'') \<Longrightarrow> P f"
  shows "\<forall>f \<in> set (fst st'). P f"
  using assms(1,2)
proof (induction elems arbitrary: st)
  case Nil
  then show ?case by simp
next
  case (Cons elem elems)
  from Cons.prems(1) obtain st1 where
    s1: "emit_item E (\<lambda>expr. eval_xpath E expr elem ctx) field_map ctx st = Inr st1"
    and r: "xml_elems E field_map ctx elems st1 = Inr st'"
    by (auto split: sum.splits)
  have "\<forall>f \<in> set (fst st1). P f"
      by (rule emit_item_inv [OF s1 Cons.prems(2)]) (rule assms(3))
  then show ?case by (rule Cons.IH [OF r])
qed

lemma xml_files_inv:
  assumes "xml_files E rx field_map ctx paths st = Inr st'"
    and "\<forall>f \<in> set (fst st). P f"
    and "\<And>obj now f. ensure_soft_schema obj ctx now = Inr f \<Longrightarrow> truthy (dict_get f ''tool'')
           \<Longrightarrow> truthy (dict_get f ''asset'') \<Longrightarrow> truthy (dict_get f ''summary'') \<Longrightarrow> P f"
  shows "\<forall>f \<in> set (fst st'). P f"
  using assms(1,2)
proof (induction paths arbitrary: st)
  case Nil
  then show ?case by simp
next
  case (Cons path paths)
  show ?case
  proof (cases "etree_parse E path")
    case None
    with Cons.prems(1) have "xml_files E rx field_map ctx paths st = Inr st'" by simp
    then show ?thesis using Cons.prems(2) by (rule Cons.IH)
  next
    case (Some root)
    with Cons.prems(1) obtain r0 elems st1 where
      "xpath E root rx = Inr r0" "iterate r0 = Inr elems"
      and s1: "xml_elems E field_map ctx elems st = Inr st1"
      and r: "xml_files E rx field_map ctx paths st1 = Inr st'"
      by (auto split: sum.splits)
    have "\<forall>f \<in> set (fst st1). P f"
      by (rule xml_elems_inv [OF s1 Cons.prems(2)]) (rule assms(3))
    then show ?thesis by (rule Cons.IH [OF r])
  qed
qed

lemma run_rule_cases:
  assumes "run_rule E ctx p st = Inr st'"
  shows "(\<exists>rec_expr field_map paths. ndjson_files E rec_expr field_map ctx paths st = Inr st')
       \<or> (\<exists>rx field_map paths. xml_files E rx field_map ctx paths st = Inr st')
       \<or> st' = st"
proof -
  from assms obtain loaded where l: "safe_load E p = Inr loaded"
    by (cases "safe_load E p") (simp_all add: run_rule_def)
  from assms l obtain meta where m: "py_or loaded (PDict []) = PDict meta"
    by (cases "py_or loaded (PDict [])") (simp_all add: run_rule_def)
  define g where "g = dict_get_default meta ''glob'' (PStr [])"
  consider (nd) "dict_get meta ''type'' = PStr ''ndjson''"
    | (xm) "dict_get meta ''type'' \<noteq> PStr ''ndjson''" "dict_get meta ''type'' = PStr ''xml''"
    | (other) "dict_get meta ''type'' \<noteq> PStr ''ndjson''" "dict_get meta ''type'' \<noteq> PStr ''xml''"
    by blast
  then show ?thesis
  proof cases
    case nd
    with assms l m obtain glob_pat where "g = PStr glob_pat"
      by (cases g) (simp_all add: run_rule_def g_def)
    with assms l m nd have "ndjson_files E (dict_get_default meta ''record_jmes'' (PStr ''@''))
        (dict_get_default meta ''fields'' (PDict [])) ctx (glob_files E glob_pat) st = Inr st'"
      by (simp add: run_rule_def g_def)
    then show ?thesis by blast
  next
    case xm
    with assms l m obtain glob_pat where "g = PStr glob_pat"
      by (cases g) (simp_all add: run_rule_def g_def)
    with assms l m xm have "xml_files E (dict_get_default meta ''record_xpath'' (PStr []))
        (dict_get_default meta ''fields'' (PDict [])) ctx (glob_files E glob_pat) st = Inr st'"
      by (simp add: run_rule_def g_def)
    then show ?thesis by blast
  next
    case other
    with assms l m show ?thesis by (simp add: run_rule_def)
  qed
qed

lemma run_rule_inv:
  assumes "run_rule E ctx p st = Inr st'"
    and "\<forall>f \<in> set (fst st). P f"
    and "\<And>obj now f. ensure_soft_schema obj ctx now = Inr f \<Longrightarrow> truthy (dict_get f ''tool'')
           \<Longrightarrow> truthy (dict_get f ''asset'') \<Longrightarrow> truthy (dict_get f ''summary'') \<Longrightarrow> P f"
  shows "\<forall>f \<in> set (fst st'). P f"
proof -
  from run_rule_cases [OF assms(1)] consider
    (nd) rec_expr field_map paths where "ndjson_files E rec_expr field_map ctx paths st = Inr st'"
  | (xm) rx field_map paths where "xml_files E rx field_map ctx paths st = Inr st'"
  | (skip) "st' = st"
    by blast
  then show ?thesis
  proof cases
    case nd
    show ?thesis by (rule ndjson_files_inv [OF nd assms(2)]) (rule assms(3))
  next
    case xm
    show ?thesis by (rule xml_files_inv [OF xm assms(2)]) (rule assms(3))
  next
    case skip
    with assms(2) show ?thesis by simp
  qed
qed

lemma rules_loop_inv:
  assumes "rules_loop E ctx parsers st = Inr st'"
    and "\<forall>f \<in> set (fst st). P f"
    and "\<And>obj now f. ensure_soft_schema obj ctx now = Inr f \<Longrightarrow> truthy (dict_get f ''tool'')
           \<Longrightarrow> truthy (dict_get f ''asset'') \<Longrightarrow> truthy (dict_get f ''summary'') \<Longrightarrow> P f"
  shows "\<forall>f \<in> set (fst st'). P f"
  using assms(1,2)
proof (induction parsers arbitrary: st)
  case Nil
  then show ?case by simp
next
  case (Cons p parsers)
  from Cons.prems(1) obtain st1 where s1: "run_rule E ctx p st = Inr st1"
    and r: "rules_loop E ctx parsers st1 = Inr st'"
    by (auto split: sum.splits)
  have "\<forall>f \<in> set (fst st1). P f"
      by (rule run_rule_inv [OF s1 Cons.prems(2)]) (rule assms(3))
  then show ?case by (rule Cons.IH [OF r])
qed

lemma parse_and_merge_inv:
  assumes "parse_and_merge E run_name parsers = Inr findings"
    and "\<And>obj now f. ensure_soft_schema obj [(''run_id'', PStr run_name)] now = Inr f
           \<Longrightarrow> truthy (dict_get f ''tool'')
           \<Longrightarrow> truthy (dict_get f ''asset'') \<Longrightarrow> truthy (dict_get f ''summary'') \<Longrightarrow> P f"
  shows "\<forall>f \<in> set findings. P f"
proof -
  from assms(1) obtain st where st: "rules_loop E [(''run_id'', PStr run_name)] parsers ([], 0) = Inr st"
    and "findings = fst st"
    by (auto simp: parse_and_merge_def split: sum.splits)
  have "\<forall>f \<in> set (fst st). P f"
    by (rule rules_loop_inv [OF st]) (simp, rule assms(2))
  with \<open>findings = fst st\<close> show ?thesis by simp
qed

subsection \<open>Findings: the derived field and the discards\<close>

text \<open>
  Claim C1, as stated: an emitted finding has \<^verbatim>\<open>partial\<close> true exactly when
  \<^verbatim>\<open>asset\<close> or \<^verbatim>\<open>summary\<close> was filled in by the fallback. It does not hold: the
  record below has neither field when it is mapped, both are filled in (from
  \<^verbatim>\<open>host\<close> and \<^verbatim>\<open>title\<close>), the finding is emitted, and \<^verbatim>\<open>partial\<close> is false.
\<close>

theorem partial_false_on_synthesized_asset:
  "dict_has [(''tool'', PStr ''nmap''), (''host'', PStr ''10.0.0.5''), (''title'', PStr ''Open port'')] ''asset'' = False
   \<and> dict_has [(''tool'', PStr ''nmap''), (''host'', PStr ''10.0.0.5''), (''title'', PStr ''Open port'')] ''summary'' = False
   \<and> emit [(''tool'', PStr ''nmap''), (''host'', PStr ''10.0.0.5''), (''title'', PStr ''Open port'')]
         [(''run_id'', PStr ''r1'')] ''2025-01-01T00:00:00'' []
       = Inr [[(''tool'', PStr ''nmap''), (''host'', PStr ''10.0.0.5''), (''title'', PStr ''Open port''),
               (''run_id'', PStr ''r1''), (''ts'', PStr ''2025-01-01T00:00:00Z''),
               (''asset'', PStr ''10.0.0.5''), (''summary'', PStr ''Open port''),
               (''partial'', PBool False), (''severity'', PStr ''unknown'')]]"
  by code_simp

text \<open>
  Claim C1, amended: \<^verbatim>\<open>partial\<close> is computed after the fallback and is true exactly
  when \<^verbatim>\<open>asset\<close> or \<^verbatim>\<open>summary\<close> is still missing or empty then. A record in
  that state is not emitted, so every finding \<^verbatim>\<open>_emit\<close> appends, and every finding
  in the output of the engine, has \<^verbatim>\<open>partial\<close> false.
\<close>

theorem partial_iff_still_missing:
  assumes "dict_item ctx ''run_id'' = Inr rid"
  shows "(\<exists>obj'. ensure_soft_schema obj ctx now = Inr obj'
            \<and> dict_get obj' ''partial'' =
                PBool (\<not> truthy (dict_get obj' ''asset'') \<or> \<not> truthy (dict_get obj' ''summary'')))
         \<and> (\<forall>f. emit obj ctx now out = Inr (out @ [f]) \<longrightarrow> dict_get f ''partial'' = PBool False)
         \<and> (\<forall>findings. parse_and_merge E run_name parsers = Inr findings
               \<longrightarrow> (\<forall>f \<in> set findings. dict_get f ''partial'' = PBool False))"
proof (intro conjI allI impI)
  from ensure_soft_schema_result [OF assms, of obj now] obtain obj' obj3 where
    e: "ensure_soft_schema obj ctx now = Inr obj'"
    and a: "dict_get obj' ''asset'' = dict_get obj3 ''asset''"
    and s: "dict_get obj' ''summary'' = dict_get (summary_step obj3) ''summary''"
    and p: "dict_get obj' ''partial'' = PBool (\<not> truthy (dict_get obj3 ''asset''))"
    by blast
  have "truthy (dict_get obj' ''summary'')"
    by (simp only: s summary_step_truthy)
  with a p have "dict_get obj' ''partial'' =
      PBool (\<not> truthy (dict_get obj' ''asset'') \<or> \<not> truthy (dict_get obj' ''summary''))"
    by simp
  with e show "\<exists>obj'. ensure_soft_schema obj ctx now = Inr obj'
      \<and> dict_get obj' ''partial'' =
          PBool (\<not> truthy (dict_get obj' ''asset'') \<or> \<not> truthy (dict_get obj' ''summary''))"
    by blast
next
  fix f
  assume "emit obj ctx now out = Inr (out @ [f])"
  from emit_cases [OF this] have "ensure_soft_schema obj ctx now = Inr f \<and> truthy (dict_get f ''asset'')"
    by auto
  then show "dict_get f ''partial'' = PBool False"
    using emitted_partial_false by blast
next
  fix findings
  assume "parse_and_merge E run_name parsers = Inr findings"
  then show "\<forall>f \<in> set findings. dict_get f ''partial'' = PBool False"
    by (rule parse_and_merge_inv) (rule emitted_partial_false)
qed

theorem partial_iff_still_missing_witness:
  "parse_and_merge example_env ''r1'' [''20-nmap.yaml''] =
     Inr [[(''tool'', PStr ''nmap''), (''asset'', PStr ''10.0.0.5''),
           (''summary'', PStr ''Open port''), (''run_id'', PStr ''r1''),
           (''ts'', PStr ''2025-01-01T00:00:00Z''), (''partial'', PBool False),
           (''severity'', PStr ''unknown'')]]
   \<and> dict_get [(''tool'', PStr ''nmap''), (''asset'', PStr ''10.0.0.5''),
           (''summary'', PStr ''Open port''), (''run_id'', PStr ''r1''),
           (''ts'', PStr ''2025-01-01T00:00:00Z''), (''partial'', PBool False),
           (''severity'', PStr ''unknown'')] ''partial'' = PBool False"
proof -
  have h: "dict_item [(''run_id'', PStr ''r1'')] ''run_id'' = Inr (PStr ''r1'')"
    by (simp add: dict_item_def)
  have r: "parse_and_merge example_env ''r1'' [''20-nmap.yaml''] =
     Inr [[(''tool'', PStr ''nmap''), (''asset'', PStr ''10.0.0.5''),
           (''summary'', PStr ''Open port''), (''run_id'', PStr ''r1''),
           (''ts'', PStr ''2025-01-01T00:00:00Z''), (''partial'', PBool False),
           (''severity'', PStr ''unknown'')]]"
    by code_simp
  from partial_iff_still_missing [OF h, of "[]" "[]" "[]" example_env "''r1''" "[''20-nmap.yaml'']"] r
  show ?thesis by simp
qed

text \<open>
  Claim C2 says that a rule file that cannot be parsed is skipped and the other rules still
  give their findings. The rule file is loaded outside any \<^verbatim>\<open>try\<close>: with the broken
  rule in front, the exception leaves \<^verbatim>\<open>parse_and_merge\<close> and nothing is written,
  while the well-formed rule alone gives one finding.
\<close>

theorem malformed_rule_aborts:
  "parse_and_merge example_env ''r1'' [''10-broken.yaml'', ''20-nmap.yaml''] = Inl YAMLError
   \<and> parse_and_merge example_env ''r1'' [''20-nmap.yaml''] =
     Inr [[(''tool'', PStr ''nmap''), (''asset'', PStr ''10.0.0.5''),
           (''summary'', PStr ''Open port''), (''run_id'', PStr ''r1''),
           (''ts'', PStr ''2025-01-01T00:00:00Z''), (''partial'', PBool False),
           (''severity'', PStr ''unknown'')]]"
  by code_simp

text \<open>
  Claim C9, as stated: after completion \<^verbatim>\<open>summary\<close> is a non-empty text. It does not
  hold for a record whose mapped \<^verbatim>\<open>summary\<close> is truthy and not a text: the value is
  left as it is, here the integer 443.
\<close>

theorem summary_kept_as_mapped:
  "ensure_soft_schema [(''tool'', PStr ''nmap''), (''asset'', PStr ''10.0.0.5''), (''summary'', PInt 443)]
      [(''run_id'', PStr ''r1'')] ''2025-01-01T00:00:00''
     = Inr [(''tool'', PStr ''nmap''), (''asset'', PStr ''10.0.0.5''), (''summary'', PInt 443),
            (''run_id'', PStr ''r1''), (''ts'', PStr ''2025-01-01T00:00:00Z''),
            (''partial'', PBool False), (''severity'', PStr ''unknown'')]"
  by code_simp

text \<open>
  Claim C9, amended: after completion \<^verbatim>\<open>summary\<close> is truthy. It is the mapped value
  when that is truthy; otherwise it is a non-empty text, the \<^verbatim>\<open>str\<close> of the first
  truthy value among \<^verbatim>\<open>title\<close>, \<^verbatim>\<open>service\<close> and \<^verbatim>\<open>status\<close>, or
  \<^verbatim>\<open>finding\<close>. So \<^verbatim>\<open>_emit\<close> either appends the completed record or leaves the
  list as it is, and when it discards the record, \<^verbatim>\<open>tool\<close> or \<^verbatim>\<open>asset\<close> is
  missing or empty.
\<close>

theorem summary_never_missing:
  assumes "dict_item ctx ''run_id'' = Inr rid"
  shows "\<exists>obj'. ensure_soft_schema obj ctx now = Inr obj'
     \<and> truthy (dict_get obj' ''summary'')
     \<and> dict_get obj' ''summary'' =
         (if truthy (dict_get obj ''summary'') then dict_get obj ''summary''
          else PStr (py_str (py_or (py_or (py_or (dict_get obj ''title'') (dict_get obj ''service''))
                                      (dict_get obj ''status'')) (PStr ''finding''))))
     \<and> (\<not> truthy (dict_get obj ''summary'')
          \<longrightarrow> (\<exists>s. s \<noteq> [] \<and> dict_get obj' ''summary'' = PStr s))
     \<and> (emit obj ctx now out = Inr out \<or> emit obj ctx now out = Inr (out @ [obj']))
     \<and> (emit obj ctx now out = Inr out
          \<longrightarrow> \<not> truthy (dict_get obj' ''tool'') \<or> \<not> truthy (dict_get obj' ''asset''))"
proof -
  from ensure_soft_schema_result [OF assms, of obj now] obtain obj' obj3 where
    e: "ensure_soft_schema obj ctx now = Inr obj'"
    and k: "\<forall>k. k \<noteq> ''asset'' \<and> k \<noteq> ''run_id'' \<and> k \<noteq> ''ts'' \<longrightarrow> dict_get obj3 k = dict_get obj k"
    and s: "dict_get obj' ''summary'' = dict_get (summary_step obj3) ''summary''"
    by blast
  have t: "truthy (dict_get obj' ''summary'')"
    by (simp only: s summary_step_truthy)
  from k have k4: "dict_get obj3 ''summary'' = dict_get obj ''summary''"
    "dict_get obj3 ''title'' = dict_get obj ''title''"
    "dict_get obj3 ''service'' = dict_get obj ''service''"
    "dict_get obj3 ''status'' = dict_get obj ''status''"
    by simp_all
  have v: "dict_get obj' ''summary'' =
         (if truthy (dict_get obj ''summary'') then dict_get obj ''summary''
          else PStr (py_str (py_or (py_or (py_or (dict_get obj ''title'') (dict_get obj ''service''))
                                      (dict_get obj ''status'')) (PStr ''finding''))))"
    by (simp only: s summary_step_summary k4)
  have n: "\<not> truthy (dict_get obj ''summary'')
          \<longrightarrow> (\<exists>s. s \<noteq> [] \<and> dict_get obj' ''summary'' = PStr s)"
  proof
    assume "\<not> truthy (dict_get obj ''summary'')"
    with v obtain s where s: "dict_get obj' ''summary'' = PStr s" by simp
    with t have "s \<noteq> []" by simp
    with s show "\<exists>s. s \<noteq> [] \<and> dict_get obj' ''summary'' = PStr s" by blast
  qed
  have c: "emit obj ctx now out = Inr out \<or> emit obj ctx now out = Inr (out @ [obj'])"
    by (simp add: emit_def e)
  have d: "emit obj ctx now out = Inr out
          \<longrightarrow> \<not> truthy (dict_get obj' ''tool'') \<or> \<not> truthy (dict_get obj' ''asset'')"
    using t by (simp add: emit_def e)
  from e t v n c d show ?thesis by blast
qed

theorem summary_never_missing_witness:
  "ensure_soft_schema [(''tool'', PStr ''nmap''), (''service'', PStr ''http'')]
      [(''run_id'', PStr ''r1'')] ''2025-01-01T00:00:00''
     = Inr [(''tool'', PStr ''nmap''), (''service'', PStr ''http''),
            (''run_id'', PStr ''r1''), (''ts'', PStr ''2025-01-01T00:00:00Z''),
            (''summary'', PStr ''http''), (''partial'', PBool True), (''severity'', PStr ''unknown'')]
   \<and> emit [(''tool'', PStr ''nmap''), (''service'', PStr ''http'')]
      [(''run_id'', PStr ''r1'')] ''2025-01-01T00:00:00'' [] = Inr []
   \<and> \<not> truthy (dict_get [(''tool'', PStr ''nmap''), (''service'', PStr ''http''),
            (''run_id'', PStr ''r1''), (''ts'', PStr ''2025-01-01T00:00:00Z''),
            (''summary'', PStr ''http''), (''partial'', PBool True), (''severity'', PStr ''unknown'')] ''asset'')"
proof -
  have h: "dict_item [(''run_id'', PStr ''r1'')] ''run_id'' = Inr (PStr ''r1'')"
    by (simp add: dict_item_def)
  have e: "ensure_soft_schema [(''tool'', PStr ''nmap''), (''service'', PStr ''http'')]
      [(''run_id'', PStr ''r1'')] ''2025-01-01T00:00:00''
     = Inr [(''tool'', PStr ''nmap''), (''service'', PStr ''http''),
            (''run_id'', PStr ''r1''), (''ts'', PStr ''2025-01-01T00:00:00Z''),
            (''summary'', PStr ''http''), (''partial'', PBool True), (''severity'', PStr ''unknown'')]"
    by code_simp
  have m: "emit [(''tool'', PStr ''nmap''), (''service'', PStr ''http'')]
      [(''run_id'', PStr ''r1'')] ''2025-01-01T00:00:00'' [] = Inr []"
    by code_simp
  have g: "truthy (dict_get [(''tool'', PStr ''nmap''), (''service'', PStr ''http''),
            (''run_id'', PStr ''r1''), (''ts'', PStr ''2025-01-01T00:00:00Z''),
            (''summary'', PStr ''http''), (''partial'', PBool True), (''severity'', PStr ''unknown'')] ''tool'')"
    by code_simp
  from summary_never_missing [OF h, of "[(''tool'', PStr ''nmap''), (''service'', PStr ''http'')]"
      "''2025-01-01T00:00:00''" "[]"] e m g
  show ?thesis by auto
qed

end
